theory Spec2Isabelle
  imports Main "HOL-Library.Sublist" "HOL-Library.List_Lexorder"
begin

section \<open>Python strings\<close>

text \<open>
  A Python \<open>str\<close> is a sequence of Unicode code points. It is modelled as the list of its
  code points, so that the whitespace and line-boundary characters beyond ASCII that
  \<open>str.strip\<close>, \<open>str.splitlines\<close> and the pattern \<open>\s\<close> recognise are part of the model.
  The order of \<open>nat list\<close> (lexicographic, from \<open>List_Lexorder\<close>) is the order in which
  Python compares two strings.
\<close>

type_synonym pystr = "nat list"

definition py :: "string \<Rightarrow> pystr" where
  "py s = map of_char s"

definition QUOTE :: nat where
  "QUOTE = 34"

definition NEWLINE :: nat where
  "NEWLINE = 10"

definition SEMICOLON :: nat where
  "SEMICOLON = 59"

text \<open>The characters for which \<open>str.isspace\<close> holds (CPython's \<open>Py_UNICODE_ISSPACE\<close>).\<close>

definition isspace :: "nat \<Rightarrow> bool" where
  "isspace c = ((9 \<le> c \<and> c \<le> 13) \<or> (28 \<le> c \<and> c \<le> 32) \<or> c = 133 \<or> c = 160
     \<or> c = 5760 \<or> (8192 \<le> c \<and> c \<le> 8202) \<or> c = 8232 \<or> c = 8233 \<or> c = 8239
     \<or> c = 8287 \<or> c = 12288)"

text \<open>The line boundaries of \<open>str.splitlines\<close>; \<open>\r\n\<close> counts as one boundary.\<close>

definition islinebreak :: "nat \<Rightarrow> bool" where
  "islinebreak c = ((10 \<le> c \<and> c \<le> 13) \<or> (28 \<le> c \<and> c \<le> 30) \<or> c = 133
     \<or> c = 8232 \<or> c = 8233)"

text \<open>\<open>s.strip()\<close> and \<open>s.strip(chars)\<close>.\<close>

definition strip :: "pystr \<Rightarrow> pystr" where
  "strip s = rev (dropWhile isspace (rev (dropWhile isspace s)))"

definition strip_chars :: "pystr \<Rightarrow> pystr \<Rightarrow> pystr" where
  "strip_chars cs s =
     rev (dropWhile (\<lambda>c. c \<in> set cs) (rev (dropWhile (\<lambda>c. c \<in> set cs) s)))"

text \<open>\<open>sub in s\<close>: \<open>sub\<close> occurs in \<open>s\<close> as a contiguous substring.\<close>

fun contains :: "pystr \<Rightarrow> pystr \<Rightarrow> bool" where
  "contains sub [] = (sub = [])"
| "contains sub (c # cs) = (prefix sub (c # cs) \<or> contains sub cs)"

text \<open>
  \<open>s.splitlines()\<close>: the first argument is the line read so far. A boundary closes the
  line, also an empty one; text left after the last boundary is a line of its own.
\<close>

fun lines_from :: "pystr \<Rightarrow> pystr \<Rightarrow> pystr list" where
  "lines_from cur [] = (if cur = [] then [] else [cur])"
| "lines_from cur (c # cs) =
     (if c = 13 then
        (case cs of
           [] \<Rightarrow> [cur]
         | d # ds \<Rightarrow> if d = 10 then cur # lines_from [] ds else cur # lines_from [] (d # ds))
      else if islinebreak c then cur # lines_from [] cs
      else lines_from (cur @ [c]) cs)"

definition splitlines :: "pystr \<Rightarrow> pystr list" where
  "splitlines s = lines_from [] s"

text \<open>\<open>sep.join(xs)\<close>.\<close>

fun join :: "pystr \<Rightarrow> pystr list \<Rightarrow> pystr" where
  "join sep [] = []"
| "join sep [x] = x"
| "join sep (x # y # ys) = x @ sep @ join sep (y # ys)"

text \<open>
  The exceptions the parsing code could raise: indexing past the end of a list, splitting at
  an empty separator, calling a method of \<open>None\<close>, sorting or joining a \<open>None\<close>.
\<close>

datatype py_error = IndexError | ValueError | AttributeError | TypeError

text \<open>\<open>s.partition(sep)\<close> restricted to the case where \<open>sep\<close> occurs: the text before and
  after the first occurrence.\<close>

fun cut :: "pystr \<Rightarrow> pystr \<Rightarrow> (pystr \<times> pystr) option" where
  "cut sep [] = (if sep = [] then Some ([], []) else None)"
| "cut sep (c # cs) =
     (if prefix sep (c # cs) then Some ([], drop (length sep) (c # cs))
      else map_option (\<lambda>(a, b). (c # a, b)) (cut sep cs))"

text \<open>\<open>s.split(sep, 1)\<close>.\<close>

definition split1 :: "pystr \<Rightarrow> pystr \<Rightarrow> py_error + pystr list" where
  "split1 sep s =
     (if sep = [] then Inl ValueError
      else case cut sep s of None \<Rightarrow> Inr [s] | Some (a, b) \<Rightarrow> Inr [a, b])"

text \<open>\<open>xs[i]\<close> for a non-negative index.\<close>

definition index :: "'a list \<Rightarrow> nat \<Rightarrow> py_error + 'a" where
  "index xs i = (if i < length xs then Inr (xs ! i) else Inl IndexError)"

section \<open>Regular expressions\<close>

text \<open>
  The three patterns of the program use literals, \<open>\s\<close>, negated character sets, the greedy
  quantifiers \<open>?\<close> and \<open>+\<close> on one character, and one capturing group. A pattern is the
  sequence of its pieces, the group written as the two marks that enclose it, as in the
  compiled form of \<open>re\<close>.
\<close>

datatype citem = Chr nat | Whitespace

fun item_has :: "citem \<Rightarrow> nat \<Rightarrow> bool" where
  "item_has (Chr c) x = (x = c)"
| "item_has Whitespace x = isspace x"

datatype cset = Only citem | NoneOf "citem list"

fun accepts :: "cset \<Rightarrow> nat \<Rightarrow> bool" where
  "accepts (Only i) x = item_has i x"
| "accepts (NoneOf is) x = (\<not> list_ex (\<lambda>i. item_has i x) is)"

datatype piece = One cset | Opt cset | Plus cset | GroupOpen | GroupClose

text \<open>Group 1 during a match: not entered, entered (with the text consumed inside it so far),
  or closed with its text.\<close>

datatype capture = Unset | Opened pystr | Closed pystr

fun feed :: "capture \<Rightarrow> nat \<Rightarrow> capture" where
  "feed (Opened g) x = Opened (g @ [x])"
| "feed cap x = cap"

text \<open>
  Matching a pattern at the start of a text, by backtracking: a greedy quantifier first
  takes the character and gives it back only if the rest of the pattern then fails.
\<close>

fun match_here :: "piece list \<Rightarrow> pystr \<Rightarrow> capture \<Rightarrow> capture option" where
  "match_here [] s cap = Some cap"
| "match_here (One c # ps) [] cap = None"
| "match_here (One c # ps) (x # xs) cap =
     (if accepts c x then match_here ps xs (feed cap x) else None)"
| "match_here (Opt c # ps) [] cap = match_here ps [] cap"
| "match_here (Opt c # ps) (x # xs) cap =
     (case (if accepts c x then match_here ps xs (feed cap x) else None) of
        Some r \<Rightarrow> Some r
      | None \<Rightarrow> match_here ps (x # xs) cap)"
| "match_here (Plus c # ps) [] cap = None"
| "match_here (Plus c # ps) (x # xs) cap =
     (if accepts c x then
        (case match_here (Plus c # ps) xs (feed cap x) of
           Some r \<Rightarrow> Some r
         | None \<Rightarrow> match_here ps xs (feed cap x))
      else None)"
| "match_here (GroupOpen # ps) s cap = match_here ps s (Opened [])"
| "match_here (GroupClose # ps) s cap =
     match_here ps s (case cap of Opened g \<Rightarrow> Closed g | c \<Rightarrow> c)"

text \<open>\<open>re.search\<close>: the match at the leftmost position where the pattern matches.\<close>

fun re_search :: "piece list \<Rightarrow> pystr \<Rightarrow> capture option" where
  "re_search ps [] = match_here ps [] Unset"
| "re_search ps (x # xs) =
     (case match_here ps (x # xs) Unset of Some r \<Rightarrow> Some r | None \<Rightarrow> re_search ps xs)"

text \<open>\<open>m.group(1)\<close>: \<open>None\<close> when the group took no part in the match.\<close>

fun group1 :: "capture \<Rightarrow> pystr option" where
  "group1 (Closed g) = Some g"
| "group1 cap = None"

definition lit :: "string \<Rightarrow> piece list" where
  "lit s = map (\<lambda>c. One (Only (Chr (of_char c)))) s"

text \<open>\<^verbatim>\<open>set\s+name=([^\s]+)\<close>\<close>

definition RE_SET_NAME :: "piece list" where
  "RE_SET_NAME = lit ''set'' @ [Plus (Only Whitespace)] @ lit ''name=''
     @ [GroupOpen, Plus (NoneOf [Whitespace]), GroupClose]"

text \<open>\<^verbatim>\<open>KEY="?([^"\s]+)"?\<close> for a literal \<open>KEY\<close>\<close>

definition value_tail :: "piece list" where
  "value_tail = [Opt (Only (Chr QUOTE)), GroupOpen, Plus (NoneOf [Chr QUOTE, Whitespace]),
     GroupClose, Opt (Only (Chr QUOTE))]"

definition RE_SSID :: "piece list" where
  "RE_SSID = lit ''ssid='' @ value_tail"

definition RE_RADIO_NAME :: "piece list" where
  "RE_RADIO_NAME = lit ''radio-name='' @ value_tail"

text \<open>The characters of a value: those the set \<^verbatim>\<open>[^"\s]\<close> accepts.\<close>

definition value_char :: "nat \<Rightarrow> bool" where
  "value_char x = (x \<noteq> QUOTE \<and> \<not> isspace x)"

section \<open>Configuration\<close>

definition COMMAND_IDENTITY :: pystr where
  "COMMAND_IDENTITY = py ''/system identity print''"

definition COMMAND_WIRELESS :: pystr where
  "COMMAND_WIRELESS = py ''/interface wireless print detail without-paging''"

definition COMMAND_WIRELESS_ALT :: pystr where
  "COMMAND_WIRELESS_ALT = py ''/interface wifiwave2 print detail without-paging''"

definition COMMAND_EXPORT :: pystr where
  "COMMAND_EXPORT = py ''/export terse''"

type_synonym credential = "pystr \<times> pystr"

definition CREDENTIALS :: "credential list" where
  "CREDENTIALS = [(py ''admin'', py ''kol5ara''), (py ''admin'', py ''Admin''),
     (py ''admin'', py ''ADmin''), (py ''admin'', py ''admin'')]"

section \<open>The remote shell\<close>

text \<open>
  One call of \<open>ssh_run\<close> is the address, the user name, the password and the command. What
  the network does with a call is outside the program: it is a parameter, a function of the
  calls made before (the trace) and of the call, that either completes with the decoded
  standard output and standard error, or fails in \<open>connect\<close>, \<open>exec_command\<close> or \<open>read\<close>.
  A failure is an exception of class \<open>paramiko.AuthenticationException\<close> or any other
  subclass of \<open>Exception\<close>; each carries the text \<open>str(e)\<close>. The trace records every call.
  What is no \<open>Exception\<close> (a keyboard interrupt, the exit of the interpreter) ends the
  program and is left out.
\<close>

type_synonym call = "pystr \<times> pystr \<times> pystr \<times> pystr"

datatype exn = AuthenticationException pystr | OtherException pystr

datatype transport = Completed pystr pystr | Fails exn

type_synonym device = "call list \<Rightarrow> call \<Rightarrow> transport"

text \<open>The value \<open>ssh_run\<close> computes from a completed command: \<open>out if out.strip() else err\<close>.\<close>

definition pick_output :: "pystr \<Rightarrow> pystr \<Rightarrow> pystr" where
  "pick_output out err = (if strip out \<noteq> [] then out else err)"

definition ssh_run ::
  "device \<Rightarrow> call list \<Rightarrow> pystr \<Rightarrow> pystr \<Rightarrow> pystr \<Rightarrow> pystr \<Rightarrow> (exn + pystr) \<times> call list" where
  "ssh_run dev tr ip username password command =
     (case dev tr (ip, username, password, command) of
        Completed out err \<Rightarrow> Inr (pick_output out err)
      | Fails e \<Rightarrow> Inl e,
      tr @ [(ip, username, password, command)])"

section \<open>The credential prober\<close>

text \<open>\<open>d.get(k, default)\<close> on the dictionary of command outputs.\<close>

type_synonym outputs = "string \<rightharpoonup> pystr"

definition get :: "outputs \<Rightarrow> string \<Rightarrow> pystr \<Rightarrow> pystr" where
  "get d k dflt = (case d k of None \<Rightarrow> dflt | Some v \<Rightarrow> v)"

text \<open>A wireless command whose exception is caught and replaced by the empty text.\<close>

definition run_quiet ::
  "device \<Rightarrow> call list \<Rightarrow> pystr \<Rightarrow> credential \<Rightarrow> pystr \<Rightarrow> pystr \<times> call list" where
  "run_quiet dev tr ip cred command =
     (case ssh_run dev tr ip (fst cred) (snd cred) command of
        (Inl e, tr') \<Rightarrow> ([], tr')
      | (Inr text, tr') \<Rightarrow> (text, tr'))"

text \<open>
  The body of the loop for one credential, up to its \<open>return\<close>: the outputs gathered, or the
  exception that reaches the handlers of the loop.
\<close>

definition attempt ::
  "device \<Rightarrow> call list \<Rightarrow> pystr \<Rightarrow> credential \<Rightarrow> (exn + outputs) \<times> call list" where
  "attempt dev tr ip cred =
     (case ssh_run dev tr ip (fst cred) (snd cred) COMMAND_IDENTITY of
        (Inl e, tr1) \<Rightarrow> (Inl e, tr1)
      | (Inr identity_raw, tr1) \<Rightarrow>
          if identity_raw = [] then (Inl (OtherException (py ''Empty response'')), tr1)
          else
            let (wireless_raw, tr2) = run_quiet dev tr1 ip cred COMMAND_WIRELESS;
                (wireless_raw, tr3) =
                  (if wireless_raw = [] then run_quiet dev tr2 ip cred COMMAND_WIRELESS_ALT
                   else (wireless_raw, tr2))
            in (Inr [''identity'' \<mapsto> identity_raw, ''wireless'' \<mapsto> wireless_raw], tr3))"

text \<open>
  The loop over the credentials. \<open>last_error\<close> is the local variable of that name: \<open>None\<close>
  while it is unbound.
\<close>

type_synonym probe = "credential option \<times> outputs \<times> pystr"

fun try_loop ::
  "device \<Rightarrow> pystr \<Rightarrow> credential list \<Rightarrow> pystr option \<Rightarrow> call list \<Rightarrow> probe \<times> call list" where
  "try_loop dev ip [] last_error tr =
     ((None, Map.empty,
       case last_error of None \<Rightarrow> py ''Auth/connection failed'' | Some e \<Rightarrow> e), tr)"
| "try_loop dev ip (cred # rest) last_error tr =
     (case attempt dev tr ip cred of
        (Inr outs, tr') \<Rightarrow> ((Some cred, outs, []), tr')
      | (Inl (AuthenticationException m), tr') \<Rightarrow> try_loop dev ip rest last_error tr'
      | (Inl (OtherException m), tr') \<Rightarrow> try_loop dev ip rest (Some m) tr')"

definition try_credentials_with ::
  "credential list \<Rightarrow> device \<Rightarrow> pystr \<Rightarrow> probe \<times> call list" where
  "try_credentials_with creds dev ip = try_loop dev ip creds None []"

definition try_credentials :: "device \<Rightarrow> pystr \<Rightarrow> probe \<times> call list" where
  "try_credentials = try_credentials_with CREDENTIALS"

section \<open>The output parser\<close>

text \<open>The loop of \<open>parse_identity\<close>: \<open>None\<close> when it ends without returning.\<close>

fun first_name_line :: "pystr list \<Rightarrow> (py_error + pystr) option" where
  "first_name_line [] = None"
| "first_name_line (line # ls) =
     (if contains (py ''name:'') line then
        Some (case split1 (py ''name:'') line of
                Inl e \<Rightarrow> Inl e
              | Inr parts \<Rightarrow>
                  (case index parts 1 of Inl e \<Rightarrow> Inl e | Inr t \<Rightarrow> Inr (strip t)))
      else first_name_line ls)"

definition parse_identity :: "pystr \<Rightarrow> py_error + pystr" where
  "parse_identity raw =
     (case first_name_line (splitlines raw) of
        Some r \<Rightarrow> r
      | None \<Rightarrow>
          (case re_search RE_SET_NAME raw of
             Some m \<Rightarrow>
               (case group1 m of
                  None \<Rightarrow> Inl AttributeError
                | Some g \<Rightarrow> Inr (strip_chars [QUOTE] (strip g)))
           | None \<Rightarrow> Inr []))"

text \<open>
  What one line adds to a set: \<open>m.group(1)\<close> of the first match of the pattern, when the
  line contains the marker and the pattern matches.
\<close>

definition found :: "string \<Rightarrow> piece list \<Rightarrow> pystr \<Rightarrow> pystr option set" where
  "found marker re line =
     (if contains (py marker) line then
        (case re_search re line of None \<Rightarrow> {} | Some m \<Rightarrow> {group1 m})
      else {})"

fun scan_lines :: "pystr list \<Rightarrow> pystr option set \<times> pystr option set
    \<Rightarrow> pystr option set \<times> pystr option set" where
  "scan_lines [] acc = acc"
| "scan_lines (line # ls) (ssids, radios) =
     scan_lines ls (ssids \<union> found ''ssid='' RE_SSID line,
                    radios \<union> found ''radio-name='' RE_RADIO_NAME line)"

text \<open>\<open>';'.join(sorted(s))\<close>; a \<open>None\<close> in the set makes \<open>sorted\<close> or \<open>join\<close> raise.\<close>

definition sorted_join :: "pystr option set \<Rightarrow> py_error + pystr" where
  "sorted_join s =
     (if None \<in> s then Inl TypeError
      else Inr (join [SEMICOLON] (sorted_list_of_set (the ` s))))"

definition parse_wireless :: "pystr \<Rightarrow> py_error + pystr \<times> pystr" where
  "parse_wireless raw =
     (let (ssids, radios) = scan_lines (splitlines raw) ({}, {}) in
      case sorted_join ssids of
        Inl e \<Rightarrow> Inl e
      | Inr a \<Rightarrow> (case sorted_join radios of Inl e \<Rightarrow> Inl e | Inr b \<Rightarrow> Inr (a, b)))"

section \<open>The per-device orchestrator\<close>

text \<open>
  The dictionary \<open>process_ip\<close> returns has the same nine keys on both paths. \<open>seconds\<close> is
  the elapsed wall-clock time, in hundredths of a second; the clock is outside the program
  and the reading is a parameter.
\<close>

record device_record =
  ip :: pystr
  status :: pystr
  username :: pystr
  password :: pystr
  system_identity :: pystr
  ssids :: pystr
  radio_names :: pystr
  error :: pystr
  seconds :: int

text \<open>The loop over the lines of the export: a line with a marker is appended to the
  wireless text, after a newline.\<close>

fun add_marked_lines :: "pystr \<Rightarrow> pystr list \<Rightarrow> pystr" where
  "add_marked_lines wireless_raw [] = wireless_raw"
| "add_marked_lines wireless_raw (line # ls) =
     add_marked_lines
       (if contains (py ''ssid='') line \<or> contains (py ''radio-name='') line
        then wireless_raw @ [NEWLINE] @ line else wireless_raw) ls"

text \<open>
  The wireless text after the fallback (the \<open>if not wireless_raw\<close> block of \<open>process_ip\<close>):
  with an empty wireless text the export command is run, its exception replaced by the
  empty text, and the marked lines of a non-empty export are appended.
\<close>

definition fallback_wireless ::
  "device \<Rightarrow> call list \<Rightarrow> pystr \<Rightarrow> credential \<Rightarrow> pystr \<Rightarrow> pystr \<times> call list" where
  "fallback_wireless dev tr addr cred wireless_raw =
     (if wireless_raw = [] then
        let (export_raw, tr1) = run_quiet dev tr addr cred COMMAND_EXPORT in
        (if export_raw \<noteq> []
         then add_marked_lines wireless_raw (splitlines export_raw)
         else wireless_raw, tr1)
      else (wireless_raw, tr))"

definition process_ip_with ::
  "credential list \<Rightarrow> device \<Rightarrow> int \<Rightarrow> pystr \<Rightarrow> (py_error + device_record) \<times> call list" where
  "process_ip_with creds dev duration addr =
     (case try_credentials_with creds dev addr of
        ((None, outs, err), tr) \<Rightarrow>
          (Inr \<lparr>ip = addr, status = py ''FAIL'', username = [], password = [],
                system_identity = [], ssids = [], radio_names = [], error = err,
                seconds = duration\<rparr>, tr)
      | ((Some cred, outs, err), tr) \<Rightarrow>
          let identity_raw = get outs ''identity'' [];
              wireless_raw = get outs ''wireless'' [];
              (wireless_raw, tr') = fallback_wireless dev tr addr cred wireless_raw
          in (case parse_identity identity_raw of
                Inl e \<Rightarrow> Inl e
              | Inr ident \<Rightarrow>
                  (case parse_wireless wireless_raw of
                     Inl e \<Rightarrow> Inl e
                   | Inr (s, r) \<Rightarrow>
                       Inr \<lparr>ip = addr, status = py ''OK'', username = fst cred,
                            password = snd cred, system_identity = ident, ssids = s,
                            radio_names = r, error = [], seconds = duration\<rparr>),
              tr'))"

definition process_ip :: "device \<Rightarrow> int \<Rightarrow> pystr \<Rightarrow> (py_error + device_record) \<times> call list" where
  "process_ip = process_ip_with CREDENTIALS"

section \<open>Loading the addresses and collecting the records\<close>





section \<open>Vocabulary of the claims about the prober\<close>

definition command_call :: "pystr \<Rightarrow> credential \<Rightarrow> pystr \<Rightarrow> call" where
  "command_call addr cred command = (addr, fst cred, snd cred, command)"

text \<open>
  The replies of \<open>ssh_run\<close> to the identity command as the loop goes through the
  credentials, each attempt ending at that command, as a failed attempt does.
\<close>

fun identity_replies ::
  "device \<Rightarrow> pystr \<Rightarrow> call list \<Rightarrow> credential list \<Rightarrow> (exn + pystr) list" where
  "identity_replies dev addr tr [] = []"
| "identity_replies dev addr tr (cred # rest) =
     fst (ssh_run dev tr addr (fst cred) (snd cred) COMMAND_IDENTITY)
       # identity_replies dev addr (tr @ [command_call addr cred COMMAND_IDENTITY]) rest"

text \<open>A reply that is no success: an exception, or the empty text.\<close>

fun failed :: "exn + pystr \<Rightarrow> bool" where
  "failed (Inl e) = True"
| "failed (Inr text) = (text = [])"

text \<open>
  The message a failed attempt stores in \<open>last_error\<close>: the text of an exception that is not
  an authentication rejection, \<open>Empty response\<close> for an empty reply.
\<close>

fun recorded :: "exn + pystr \<Rightarrow> pystr option" where
  "recorded (Inl (AuthenticationException m)) = None"
| "recorded (Inl (OtherException m)) = Some m"
| "recorded (Inr text) = (if text = [] then Some (py ''Empty response'') else None)"

definition last_recorded :: "(exn + pystr) list \<Rightarrow> pystr option" where
  "last_recorded rs =
     (let ms = List.map_filter recorded rs in if ms = [] then None else Some (last ms))"

text \<open>The error reported after the loop, from the value of \<open>last_error\<close> before it and
  the replies met in it.\<close>

definition final_error :: "pystr option \<Rightarrow> (exn + pystr) list \<Rightarrow> pystr" where
  "final_error le rs =
     (case (case last_recorded rs of Some m \<Rightarrow> Some m | None \<Rightarrow> le) of
        None \<Rightarrow> py ''Auth/connection failed'' | Some e \<Rightarrow> e)"

text \<open>A line the export fallback keeps: it contains one of the two markers.\<close>

definition has_marker :: "pystr \<Rightarrow> bool" where
  "has_marker line = (contains (py ''ssid='') line \<or> contains (py ''radio-name='') line)"

section \<open>Vocabulary of the claim about the wireless values\<close>

text \<open>
  A value of a key on a line, in terms of the text alone: the line is some text \<open>a\<close>, the
  key, at most one double quote, and then a non-empty run \<open>g\<close> of characters that are neither
  whitespace nor a double quote, which ends at the end of the line or at such a character.
  The first value of the key on the line is the value at the leftmost place that has one.
  The key is looked for anywhere in the line, also inside a longer word.
\<close>

definition value_at :: "string \<Rightarrow> pystr \<Rightarrow> pystr \<Rightarrow> pystr \<Rightarrow> bool" where
  "value_at key line a g =
     (\<exists>q b. line = a @ py key @ q @ g @ b \<and> (q = [] \<or> q = [QUOTE]) \<and> g \<noteq> [] \<and>
        (\<forall>c\<in>set g. value_char c) \<and> (b = [] \<or> \<not> value_char (hd b)))"

definition first_value :: "string \<Rightarrow> pystr \<Rightarrow> pystr \<Rightarrow> bool" where
  "first_value key line g =
     (\<exists>a. value_at key line a g \<and> (\<forall>a' g'. value_at key line a' g' \<longrightarrow> length a \<le> length a'))"

section \<open>Facts about the string operations\<close>

lemma strip_eq_Nil: "strip s = [] \<longleftrightarrow> (\<forall>c\<in>set s. isspace c)"
proof
  assume e: "strip s = []"
  show "\<forall>c\<in>set s. isspace c"
  proof (rule ccontr)
    assume "\<not> (\<forall>c\<in>set s. isspace c)"
    then have ne: "dropWhile isspace s \<noteq> []" by (simp add: dropWhile_eq_Nil_conv)
    then have "\<not> isspace (hd (dropWhile isspace s))" by (simp add: hd_dropWhile)
    moreover from ne have "hd (dropWhile isspace s) \<in> set (rev (dropWhile isspace s))" by simp
    ultimately have "dropWhile isspace (rev (dropWhile isspace s)) \<noteq> []"
      unfolding dropWhile_eq_Nil_conv by blast
    moreover from e have "dropWhile isspace (rev (dropWhile isspace s)) = []"
      unfolding strip_def by (simp only: rev_is_Nil_conv)
    ultimately show False by blast
  qed
next
  assume "\<forall>c\<in>set s. isspace c"
  then have "dropWhile isspace s = []" by (simp add: dropWhile_eq_Nil_conv)
  then show "strip s = []" unfolding strip_def by (simp only: rev.simps dropWhile.simps)
qed

lemma contains_iff: "contains sub s \<longleftrightarrow> (\<exists>a b. s = a @ sub @ b)"
proof (induction s)
  case Nil
  show ?case by auto
next
  case (Cons c cs)
  show ?case
  proof
    assume "contains sub (c # cs)"
    then consider "prefix sub (c # cs)" | "contains sub cs" by auto
    then show "\<exists>a b. c # cs = a @ sub @ b"
    proof cases
      case 1
      then obtain b where "c # cs = sub @ b" by (auto simp: prefix_def)
      then have "c # cs = [] @ sub @ b" by simp
      then show ?thesis by blast
    next
      case 2
      with Cons obtain a b where "cs = a @ sub @ b" by blast
      then have "c # cs = (c # a) @ sub @ b" by simp
      then show ?thesis by blast
    qed
  next
    assume "\<exists>a b. c # cs = a @ sub @ b"
    then obtain a b where ab: "c # cs = a @ sub @ b" by blast
    show "contains sub (c # cs)"
    proof (cases a)
      case Nil
      with ab have "prefix sub (c # cs)" by (simp add: prefix_def)
      then show ?thesis by simp
    next
      case (Cons x a')
      with ab have "cs = a' @ sub @ b" by simp
      with Cons.IH have "contains sub cs" by blast
      then show ?thesis by simp
    qed
  qed
qed

lemma cut_first:
  "sub \<noteq> [] \<Longrightarrow> \<forall>k<length a. \<not> prefix sub (drop k (a @ sub @ b)) \<Longrightarrow> cut sub (a @ sub @ b) = Some (a, b)"
proof (induction a)
  case Nil
  then show ?case by (cases sub) auto
next
  case (Cons x a)
  from Cons.prems(2) have np: "\<not> prefix sub (x # a @ sub @ b)" by force
  have "\<forall>k<length a. \<not> prefix sub (drop k (a @ sub @ b))"
  proof (intro allI impI)
    fix k assume "k < length a"
    then have "Suc k < length (x # a)" by simp
    with Cons.prems(2) have "\<not> prefix sub (drop (Suc k) ((x # a) @ sub @ b))" by blast
    then show "\<not> prefix sub (drop k (a @ sub @ b))" by simp
  qed
  with Cons.IH Cons.prems(1) have "cut sub (a @ sub @ b) = Some (a, b)" by blast
  with np show ?case by simp
qed

lemma cut_Some: "sub \<noteq> [] \<Longrightarrow> contains sub s \<Longrightarrow> \<exists>a b. cut sub s = Some (a, b)"
  by (induction s) auto

lemma lines_from_sub:
  "l \<in> set (lines_from cur s) \<Longrightarrow> \<exists>a b. cur @ s = a @ l @ b"
proof (induction cur s rule: lines_from.induct)
  case (1 cur)
  then have "l = cur" by (auto split: if_splits)
  then have "cur @ [] = [] @ l @ []" by simp
  then show ?case by blast
next
  case (2 cur c cs)
  have "cur @ c # cs = [] @ cur @ (c # cs)" by simp
  then have here: "l = cur \<Longrightarrow> \<exists>a b. cur @ c # cs = a @ l @ b" by blast
  show ?case
  proof (cases "l = cur")
    case True
    with here show ?thesis .
  next
    case False
    show ?thesis
    proof (cases "c = 13")
      case c13: True
      show ?thesis
      proof (cases cs)
        case Nil
        with c13 False "2.prems" show ?thesis by simp
      next
        case (Cons d ds)
        show ?thesis
        proof (cases "d = 10")
          case d: True
          with c13 Cons False "2.prems" have "l \<in> set (lines_from [] ds)" by simp
          with "2.IH"(1)[OF c13 Cons d] obtain a b where "[] @ ds = a @ l @ b" by blast
          then have "cur @ c # cs = (cur @ [c, d] @ a) @ l @ b" using Cons by simp
          then show ?thesis by blast
        next
          case d: False
          with c13 Cons False "2.prems" have "l \<in> set (lines_from [] (d # ds))" by simp
          with "2.IH"(2)[OF c13 Cons d] obtain a b where "[] @ d # ds = a @ l @ b" by blast
          then have "cur @ c # cs = (cur @ [c] @ a) @ l @ b" using Cons by simp
          then show ?thesis by blast
        qed
      qed
    next
      case c: False
      show ?thesis
      proof (cases "islinebreak c")
        case True
        with c False "2.prems" have "l \<in> set (lines_from [] cs)" by simp
        with "2.IH"(3)[OF c True] obtain a b where "[] @ cs = a @ l @ b" by blast
        then have "cur @ c # cs = (cur @ [c] @ a) @ l @ b" by simp
        then show ?thesis by blast
      next
        case nb: False
        with c "2.prems" have "l \<in> set (lines_from (cur @ [c]) cs)" by simp
        with "2.IH"(4)[OF c nb] obtain a b where "(cur @ [c]) @ cs = a @ l @ b" by blast
        then have "cur @ c # cs = a @ l @ b" by simp
        then show ?thesis by blast
      qed
    qed
  qed
qed

lemma line_contains: "l \<in> set (splitlines s) \<Longrightarrow> contains sub l \<Longrightarrow> contains sub s"
proof -
  assume "l \<in> set (splitlines s)" and c: "contains sub l"
  then obtain a b where s: "s = a @ l @ b" using lines_from_sub[of l "[]" s] by (auto simp: splitlines_def)
  from c obtain a' b' where "l = a' @ sub @ b'" by (auto simp: contains_iff)
  with s have "s = (a @ a') @ sub @ (b' @ b)" by simp
  then show ?thesis unfolding contains_iff by blast
qed

lemma lines_from_no_break:
  "l \<in> set (lines_from cur s) \<Longrightarrow> \<forall>c\<in>set cur. \<not> islinebreak c \<Longrightarrow> \<forall>c\<in>set l. \<not> islinebreak c"
proof (induction cur s rule: lines_from.induct)
  case (1 cur)
  then show ?case by (simp split: if_splits)
next
  case (2 cur c cs)
  show ?case
  proof (cases "l = cur")
    case True
    with "2.prems" show ?thesis by simp
  next
    case False
    show ?thesis
    proof (cases "c = 13")
      case c13: True
      show ?thesis
      proof (cases cs)
        case Nil
        with c13 False "2.prems" show ?thesis by simp
      next
        case (Cons d ds)
        show ?thesis
        proof (cases "d = 10")
          case d: True
          with c13 Cons False "2.prems" have "l \<in> set (lines_from [] ds)" by simp
          with "2.IH"(1)[OF c13 Cons d] show ?thesis by simp
        next
          case d: False
          with c13 Cons False "2.prems" have "l \<in> set (lines_from [] (d # ds))" by simp
          with "2.IH"(2)[OF c13 Cons d] show ?thesis by simp
        qed
      qed
    next
      case c: False
      show ?thesis
      proof (cases "islinebreak c")
        case True
        with c False "2.prems" have "l \<in> set (lines_from [] cs)" by simp
        with "2.IH"(3)[OF c True] show ?thesis by simp
      next
        case nb: False
        with c "2.prems" have "l \<in> set (lines_from (cur @ [c]) cs)" by simp
        moreover from nb "2.prems" have "\<forall>x\<in>set (cur @ [c]). \<not> islinebreak x" by simp
        ultimately show ?thesis using "2.IH"(4)[OF c nb] by blast
      qed
    qed
  qed
qed

lemma lines_from_plain:
  "\<forall>c\<in>set l. \<not> islinebreak c \<Longrightarrow> lines_from cur (l @ s) = lines_from (cur @ l) s"
proof (induction l arbitrary: cur)
  case Nil then show ?case by simp
next
  case (Cons x l)
  then have "\<not> islinebreak x" "x \<noteq> 13" by (auto simp: islinebreak_def)
  with Cons show ?case by simp
qed

lemma lines_from_joined:
  "\<forall>l\<in>set ls. l \<noteq> [] \<and> (\<forall>c\<in>set l. \<not> islinebreak c) \<Longrightarrow>
   lines_from cur (concat (map (\<lambda>l. NEWLINE # l) ls)) =
     (if ls = [] then (if cur = [] then [] else [cur]) else cur # ls)"
proof (induction ls arbitrary: cur)
  case Nil then show ?case by simp
next
  case (Cons l ls)
  have nl: "islinebreak NEWLINE" "NEWLINE \<noteq> 13" by (simp_all add: NEWLINE_def islinebreak_def)
  from Cons.prems have l: "l \<noteq> []" "\<forall>c\<in>set l. \<not> islinebreak c" by auto
  have "lines_from cur (concat (map (\<lambda>l. NEWLINE # l) (l # ls)))
      = cur # lines_from [] (l @ concat (map (\<lambda>l. NEWLINE # l) ls))"
    using nl by simp
  also have "\<dots> = cur # lines_from l (concat (map (\<lambda>l. NEWLINE # l) ls))"
    using lines_from_plain[OF l(2), of "[]"] by simp
  also have "\<dots> = cur # l # ls"
    using Cons.IH[of l] Cons.prems l by auto
  finally show ?case by simp
qed

section \<open>The session client\<close>

text \<open>
  C8, as the code has it. When the command completes, \<open>ssh_run\<close> returns the standard output
  if it holds at least one character that is not whitespace, and the standard error
  otherwise; the call is added to the trace. An output of whitespace only counts as empty.
\<close>

theorem ssh_run_picks_output:
  assumes "dev tr (addr, u, p, cmd) = Completed out err"
  shows "ssh_run dev tr addr u p cmd =
           (Inr (if \<exists>c\<in>set out. \<not> isspace c then out else err), tr @ [(addr, u, p, cmd)])"
  using assms by (simp add: ssh_run_def pick_output_def strip_eq_Nil)

theorem ssh_run_picks_output_witness:
  "ssh_run (\<lambda>tr c. Completed (py ''name: gw'') (py ''warning'')) []
      (py ''10.0.0.1'') (py ''admin'') (py ''admin'') COMMAND_IDENTITY =
     (Inr (py ''name: gw''),
      [(py ''10.0.0.1'', py ''admin'', py ''admin'', COMMAND_IDENTITY)])"
  using ssh_run_picks_output [of "\<lambda>tr c. Completed (py ''name: gw'') (py ''warning'')" "[]"
      "py ''10.0.0.1''" "py ''admin''" "py ''admin''" COMMAND_IDENTITY
      "py ''name: gw''" "py ''warning''"]
  by (simp add: py_def isspace_def)

text \<open>
  C8 as stated fails: a standard output of one space is not empty, and the standard error
  is returned in its place.
\<close>

theorem ssh_run_whitespace_counterexample:
  "[32] \<noteq> ([] :: pystr) \<and>
   fst (ssh_run (\<lambda>tr c. Completed [32] (py ''bad command'')) []
      (py ''10.0.0.1'') (py ''admin'') (py ''admin'') COMMAND_EXPORT) = Inr (py ''bad command'') \<and>
   py ''bad command'' \<noteq> [32]"
  by (simp add: ssh_run_def pick_output_def strip_def isspace_def py_def)

section \<open>Facts about the patterns\<close>

lemma py_Cons: "py (c # k) = of_char c # py k"
  by (simp add: py_def)

lemma length_py: "length (py k) = length k"
  by (simp add: py_def)

lemma match_lit:
  "match_here (lit k @ ps) s Unset =
     (if prefix (py k) s then match_here ps (drop (length k) s) Unset else None)"
proof (induction k arbitrary: s)
  case Nil
  show ?case by (simp add: lit_def py_def)
next
  case (Cons c k)
  have l: "lit (c # k) = One (Only (Chr (of_char c))) # lit k" by (simp add: lit_def)
  show ?case
  proof (cases s)
    case Nil
    then show ?thesis by (simp add: l py_Cons)
  next
    case (Cons x xs)
    then show ?thesis using Cons.IH[of xs] by (auto simp: l py_Cons)
  qed
qed

lemma match_close: "match_here [GroupClose] s (Opened g) = Some (Closed g)"
  by simp

lemma match_close_opt: "match_here [GroupClose, Opt q] s (Opened g) = Some (Closed g)"
  by (cases s) simp_all

lemma plus_greedy:
  assumes "\<And>s g. match_here ps s (Opened g) = Some (Closed g)"
  shows "match_here (Plus c # ps) s (Opened g) =
           (if s \<noteq> [] \<and> accepts c (hd s) then Some (Closed (g @ takeWhile (accepts c) s))
            else None)"
proof (induction s arbitrary: g)
  case Nil
  show ?case by simp
next
  case (Cons x xs)
  show ?case
  proof (cases "accepts c x")
    case False
    then show ?thesis by simp
  next
    case True
    show ?thesis
    proof (cases "xs \<noteq> [] \<and> accepts c (hd xs)")
      case True
      with Cons[of "g @ [x]"] \<open>accepts c x\<close> show ?thesis by simp
    next
      case False
      then have "takeWhile (accepts c) xs = []" by (cases xs) auto
      with False Cons[of "g @ [x]"] \<open>accepts c x\<close> assms show ?thesis by simp
    qed
  qed
qed

lemma accepts_value: "accepts (NoneOf [Chr QUOTE, Whitespace]) = value_char"
  by (rule ext) (simp add: value_char_def)

lemma match_group_value:
  "match_here [GroupOpen, Plus (NoneOf [Chr QUOTE, Whitespace]), GroupClose, Opt q] s cap =
     (if s \<noteq> [] \<and> value_char (hd s) then Some (Closed (takeWhile value_char s)) else None)"
  using plus_greedy[of "[GroupClose, Opt q]" "NoneOf [Chr QUOTE, Whitespace]" s "[]", OF match_close_opt]
  by (simp add: accepts_value)

lemma match_value_tail:
  "match_here value_tail s Unset =
     (let t = (if s \<noteq> [] \<and> hd s = QUOTE then tl s else s) in
      if t \<noteq> [] \<and> value_char (hd t) then Some (Closed (takeWhile value_char t)) else None)"
proof (cases s)
  case Nil
  then show ?thesis
    using match_group_value[of "Only (Chr QUOTE)" "[]" Unset] by (simp add: value_tail_def)
next
  case (Cons x xs)
  have q: "\<not> value_char QUOTE" by (simp add: value_char_def)
  show ?thesis
  proof (cases "x = QUOTE")
    case True
    with Cons q show ?thesis
      using match_group_value[of "Only (Chr QUOTE)" xs Unset]
        match_group_value[of "Only (Chr QUOTE)" "x # xs" Unset]
      by (simp add: value_tail_def)
  next
    case False
    with Cons show ?thesis
      using match_group_value[of "Only (Chr QUOTE)" "x # xs" Unset]
      by (simp add: value_tail_def)
  qed
qed

lemma re_search_Some:
  "re_search ps s = Some r \<Longrightarrow> \<exists>a b. s = a @ b \<and> match_here ps b Unset = Some r"
proof (induction s)
  case Nil
  then show ?case by simp
next
  case (Cons x xs)
  show ?case
  proof (cases "match_here ps (x # xs) Unset")
    case (Some r')
    with Cons.prems have "x # xs = [] @ (x # xs) \<and> match_here ps (x # xs) Unset = Some r" by simp
    then show ?thesis by blast
  next
    case None
    with Cons.prems have "re_search ps xs = Some r" by simp
    with Cons.IH obtain a b where "xs = a @ b" "match_here ps b Unset = Some r" by blast
    then have "x # xs = (x # a) @ b \<and> match_here ps b Unset = Some r" by simp
    then show ?thesis by blast
  qed
qed

lemma re_search_complete:
  "match_here ps b Unset \<noteq> None \<Longrightarrow> re_search ps (a @ b) \<noteq> None"
proof (induction a)
  case Nil
  then show ?case by (cases b) auto
next
  case (Cons x a)
  then show ?case by (cases "match_here ps (x # a @ b) Unset") auto
qed

lemma takeWhile_rest:
  "\<exists>b. s = takeWhile P s @ b \<and> (b = [] \<or> \<not> P (hd b))"
proof -
  have "s = takeWhile P s @ dropWhile P s" by simp
  moreover have "dropWhile P s = [] \<or> \<not> P (hd (dropWhile P s))"
    by (cases "dropWhile P s = []") (simp_all add: hd_dropWhile)
  ultimately show ?thesis by blast
qed

lemma keyed_sound:
  assumes "re_search (lit k @ value_tail) s = Some r"
  shows "\<exists>g a q b. r = Closed g \<and> g \<noteq> [] \<and> (\<forall>c\<in>set g. value_char c) \<and>
           s = a @ py k @ q @ g @ b \<and> (q = [] \<or> q = [QUOTE]) \<and> (b = [] \<or> \<not> value_char (hd b))"
proof -
  from re_search_Some[OF assms] obtain a b0 where
    s: "s = a @ b0" and m: "match_here (lit k @ value_tail) b0 Unset = Some r" by blast
  from m have p: "prefix (py k) b0"
    and v: "match_here value_tail (drop (length k) b0) Unset = Some r"
    by (simp_all add: match_lit split: if_splits)
  define u where "u = drop (length k) b0"
  from p have b0: "b0 = py k @ u"
    by (auto simp: prefix_def u_def length_py)
  define q where "q = (if u \<noteq> [] \<and> hd u = QUOTE then [QUOTE] else [])"
  define t where "t = (if u \<noteq> [] \<and> hd u = QUOTE then tl u else u)"
  have u: "u = q @ t" by (cases u) (auto simp: q_def t_def)
  from v have t: "t \<noteq> []" "value_char (hd t)" and r: "r = Closed (takeWhile value_char t)"
    by (simp_all add: match_value_tail u_def[symmetric] t_def Let_def split: if_splits)
  define g where "g = takeWhile value_char t"
  from t have g: "g \<noteq> []" by (cases t) (auto simp: g_def)
  have gv: "\<forall>c\<in>set g. value_char c" by (auto simp: g_def dest: set_takeWhileD)
  from takeWhile_rest[of t value_char] obtain b where
    b: "t = g @ b" "b = [] \<or> \<not> value_char (hd b)" by (auto simp: g_def)
  have "s = a @ py k @ q @ g @ b" using s b0 u b by simp
  moreover have "q = [] \<or> q = [QUOTE]" by (simp add: q_def)
  ultimately show ?thesis using r g gv b(2) unfolding g_def[symmetric] by blast
qed

lemma keyed_complete:
  assumes "s = a @ py k @ q @ c # b" "q = [] \<or> q = [QUOTE]" "value_char c"
  shows "re_search (lit k @ value_tail) s \<noteq> None"
proof -
  have q: "c \<noteq> QUOTE" using assms(3) by (simp add: value_char_def)
  have "match_here value_tail (q @ c # b) Unset \<noteq> None"
    using assms(2,3) q by (auto simp: match_value_tail)
  then have "match_here (lit k @ value_tail) (py k @ q @ c # b) Unset \<noteq> None"
    by (simp add: match_lit length_py[symmetric] del: length_map)
  then show ?thesis unfolding assms(1) by (rule re_search_complete)
qed

lemma plus_unset_sound:
  "match_here (Plus c # ps) s Unset = Some r \<Longrightarrow>
   \<exists>ws rest. ws \<noteq> [] \<and> (\<forall>x\<in>set ws. accepts c x) \<and> s = ws @ rest \<and>
     match_here ps rest Unset = Some r"
proof (induction s)
  case Nil
  then show ?case by simp
next
  case (Cons x xs)
  from Cons.prems have ax: "accepts c x" by (simp split: if_splits)
  show ?case
  proof (cases "match_here (Plus c # ps) xs Unset")
    case None
    with Cons.prems ax have "match_here ps xs Unset = Some r" by simp
    with ax have "[x] \<noteq> [] \<and> (\<forall>y\<in>set [x]. accepts c y) \<and> x # xs = [x] @ xs \<and>
      match_here ps xs Unset = Some r" by simp
    then show ?thesis by blast
  next
    case (Some r')
    with Cons.prems ax have "match_here (Plus c # ps) xs Unset = Some r" by simp
    with Cons.IH obtain ws rest where
      "ws \<noteq> []" "\<forall>y\<in>set ws. accepts c y" "xs = ws @ rest" "match_here ps rest Unset = Some r"
      by blast
    with ax have "x # ws \<noteq> [] \<and> (\<forall>y\<in>set (x # ws). accepts c y) \<and> x # xs = (x # ws) @ rest \<and>
      match_here ps rest Unset = Some r" by simp
    then show ?thesis by blast
  qed
qed

lemma plus_unset_run:
  "ws \<noteq> [] \<Longrightarrow> \<forall>x\<in>set ws. accepts c x \<Longrightarrow> rest = [] \<or> \<not> accepts c (hd rest) \<Longrightarrow>
   match_here ps rest Unset = Some r \<Longrightarrow>
   match_here (Plus c # ps) (ws @ rest) Unset = Some r"
proof (induction ws)
  case Nil
  then show ?case by simp
next
  case (Cons x ws)
  show ?case
  proof (cases "ws = []")
    case True
    have "match_here (Plus c # ps) rest Unset = None"
      using Cons.prems(3) by (cases rest) auto
    with True Cons.prems(2,4) show ?thesis by simp
  next
    case False
    with Cons have "match_here (Plus c # ps) (ws @ rest) Unset = Some r"
      by simp
    with Cons.prems(2) show ?thesis by simp
  qed
qed

lemma match_group_word:
  "match_here [GroupOpen, Plus (NoneOf [Whitespace]), GroupClose] s cap =
     (if s \<noteq> [] \<and> \<not> isspace (hd s) then Some (Closed (takeWhile (\<lambda>x. \<not> isspace x) s))
      else None)"
proof -
  have a: "accepts (NoneOf [Whitespace]) = (\<lambda>x. \<not> isspace x)" by (rule ext) simp
  show ?thesis
    using plus_greedy[of "[GroupClose]" "NoneOf [Whitespace]" s "[]", OF match_close]
    by (simp add: a)
qed

lemma RE_SET_NAME_split:
  "RE_SET_NAME = lit ''set'' @ (Plus (Only Whitespace) #
     (lit ''name='' @ [GroupOpen, Plus (NoneOf [Whitespace]), GroupClose]))"
  by (simp add: RE_SET_NAME_def)

lemma set_name_sound:
  assumes "re_search RE_SET_NAME s = Some r"
  shows "\<exists>pre ws tok rest. r = Closed tok \<and> s = pre @ py ''set'' @ ws @ py ''name='' @ tok @ rest \<and>
           ws \<noteq> [] \<and> (\<forall>c\<in>set ws. isspace c) \<and> tok \<noteq> [] \<and> (\<forall>c\<in>set tok. \<not> isspace c) \<and>
           (rest = [] \<or> isspace (hd rest))"
proof -
  from re_search_Some[OF assms] obtain pre b0 where
    s: "s = pre @ b0" and m: "match_here RE_SET_NAME b0 Unset = Some r" by blast
  from m have p: "prefix (py ''set'') b0"
    and m1: "match_here (Plus (Only Whitespace) #
       (lit ''name='' @ [GroupOpen, Plus (NoneOf [Whitespace]), GroupClose]))
       (drop (length ''set'') b0) Unset = Some r"
    unfolding RE_SET_NAME_split match_lit by (simp_all split: if_splits)
  define u where "u = drop (length ''set'') b0"
  from p have b0: "b0 = py ''set'' @ u"
    by (auto simp: prefix_def u_def length_py simp del: length_Cons)
  from plus_unset_sound[OF m1[folded u_def]] obtain ws v where
    ws: "ws \<noteq> []" "\<forall>x\<in>set ws. accepts (Only Whitespace) x" and u: "u = ws @ v"
    and m2: "match_here (lit ''name='' @ [GroupOpen, Plus (NoneOf [Whitespace]), GroupClose]) v Unset
       = Some r" by blast
  from m2 have p2: "prefix (py ''name='') v"
    and m3: "match_here [GroupOpen, Plus (NoneOf [Whitespace]), GroupClose]
       (drop (length ''name='') v) Unset = Some r"
    unfolding match_lit by (simp_all split: if_splits)
  define t where "t = drop (length ''name='') v"
  from p2 have v: "v = py ''name='' @ t"
    by (auto simp: prefix_def t_def length_py simp del: length_Cons)
  from m3 have t: "t \<noteq> []" "\<not> isspace (hd t)"
    and r: "r = Closed (takeWhile (\<lambda>x. \<not> isspace x) t)"
    unfolding match_group_word t_def[symmetric] by (simp_all split: if_splits)
  define tok where "tok = takeWhile (\<lambda>x. \<not> isspace x) t"
  from t have tok: "tok \<noteq> []" by (cases t) (auto simp: tok_def)
  have tv: "\<forall>c\<in>set tok. \<not> isspace c" by (auto simp: tok_def dest: set_takeWhileD)
  from takeWhile_rest[of t "\<lambda>x. \<not> isspace x"] obtain rest where
    rest: "t = tok @ rest" "rest = [] \<or> isspace (hd rest)" by (auto simp: tok_def)
  have "s = pre @ py ''set'' @ ws @ py ''name='' @ tok @ rest"
    using s b0 u v rest by simp
  moreover from ws(2) have "\<forall>c\<in>set ws. isspace c" by simp
  ultimately show ?thesis using r ws(1) tok tv rest(2) unfolding tok_def[symmetric] by blast
qed

lemma set_name_complete:
  assumes "s = pre @ py ''set'' @ ws @ py ''name='' @ c # rest"
    and "ws \<noteq> []" "\<forall>x\<in>set ws. isspace x" "\<not> isspace c"
  shows "re_search RE_SET_NAME s \<noteq> None"
proof -
  have m3: "match_here [GroupOpen, Plus (NoneOf [Whitespace]), GroupClose] (c # rest) Unset \<noteq> None"
    unfolding match_group_word using assms(4) by simp
  have m2: "match_here (lit ''name='' @ [GroupOpen, Plus (NoneOf [Whitespace]), GroupClose])
      (py ''name='' @ c # rest) Unset \<noteq> None"
    unfolding match_lit using m3 by (simp add: length_py[symmetric] del: length_Cons length_map)
  have n: "\<not> accepts (Only Whitespace) (hd (py ''name='' @ c # rest))"
    by (simp add: py_def isspace_def)
  from m2 obtain r where "match_here (lit ''name='' @ [GroupOpen, Plus (NoneOf [Whitespace]), GroupClose])
      (py ''name='' @ c # rest) Unset = Some r" by blast
  with assms(3) n have "match_here (Plus (Only Whitespace) #
      (lit ''name='' @ [GroupOpen, Plus (NoneOf [Whitespace]), GroupClose]))
      (ws @ py ''name='' @ c # rest) Unset = Some r"
    by (intro plus_unset_run[OF assms(2)]) simp_all
  then have "match_here RE_SET_NAME (py ''set'' @ ws @ py ''name='' @ c # rest) Unset \<noteq> None"
    unfolding RE_SET_NAME_split match_lit
    by (simp add: length_py[symmetric] del: length_Cons length_map)
  then show ?thesis unfolding assms(1) by (rule re_search_complete)
qed

section \<open>Facts about the parsers\<close>

lemma name_marker: "py ''name:'' \<noteq> []"
  by (simp add: py_def)

lemma name_line_value:
  assumes "line = a @ py ''name:'' @ b"
    and "\<forall>k<length a. \<not> prefix (py ''name:'') (drop k line)"
  shows "first_name_line (line # ls) = Some (Inr (strip b))"
proof -
  have c: "contains (py ''name:'') line" using assms(1) contains_iff by blast
  have "cut (py ''name:'') line = Some (a, b)"
    using cut_first[OF name_marker, of a b] assms by simp
  with c show ?thesis by (simp add: split1_def index_def name_marker)
qed

lemma first_name_line_skip:
  "\<forall>l\<in>set before. \<not> contains (py ''name:'') l \<Longrightarrow>
   first_name_line (before @ ls) = first_name_line ls"
  by (induction before) simp_all

lemma first_name_line_None:
  "first_name_line ls = None \<longleftrightarrow> (\<forall>l\<in>set ls. \<not> contains (py ''name:'') l)"
  by (induction ls) simp_all

lemma first_name_line_Inr: "first_name_line ls = Some r \<Longrightarrow> \<exists>t. r = Inr t"
proof (induction ls)
  case Nil
  then show ?case by simp
next
  case (Cons l ls)
  show ?case
  proof (cases "contains (py ''name:'') l")
    case True
    from cut_Some[OF name_marker True] obtain a b where "cut (py ''name:'') l = Some (a, b)"
      by blast
    with True Cons.prems show ?thesis by (auto simp: split1_def index_def name_marker)
  next
    case False
    with Cons show ?thesis by simp
  qed
qed

lemma parse_identity_Inr: "\<exists>t. parse_identity raw = Inr t"
proof (cases "first_name_line (splitlines raw)")
  case (Some r)
  with first_name_line_Inr[OF Some] show ?thesis by (auto simp: parse_identity_def)
next
  case None
  show ?thesis
  proof (cases "re_search RE_SET_NAME raw")
    case n: None
    with None show ?thesis by (simp add: parse_identity_def)
  next
    case (Some m)
    from set_name_sound[OF Some] obtain tok where "m = Closed tok" by blast
    with None Some show ?thesis by (simp add: parse_identity_def)
  qed
qed

lemma strip_word: "tok \<noteq> [] \<Longrightarrow> \<forall>c\<in>set tok. \<not> isspace c \<Longrightarrow> strip tok = tok"
proof -
  assume t: "tok \<noteq> []" and a: "\<forall>c\<in>set tok. \<not> isspace c"
  from t a have "\<not> isspace (hd tok)" by simp
  then have 1: "dropWhile isspace tok = tok" using t by (cases tok) auto
  from t a have "\<not> isspace (hd (rev tok))" by (simp add: hd_rev)
  then have 2: "dropWhile isspace (rev tok) = rev tok" using t by (cases "rev tok") auto
  show ?thesis by (simp add: strip_def 1 2)
qed

lemma parse_identity_fallback:
  assumes "\<forall>l\<in>set (splitlines raw). \<not> contains (py ''name:'') l"
  shows "(\<exists>pre ws tok rest. raw = pre @ py ''set'' @ ws @ py ''name='' @ tok @ rest \<and>
            ws \<noteq> [] \<and> (\<forall>c\<in>set ws. isspace c) \<and> tok \<noteq> [] \<and> (\<forall>c\<in>set tok. \<not> isspace c) \<and>
            (rest = [] \<or> isspace (hd rest)) \<and>
            parse_identity raw = Inr (strip_chars [QUOTE] tok))
       \<or> (\<not> (\<exists>pre ws c rest. raw = pre @ py ''set'' @ ws @ py ''name='' @ c # rest \<and>
            ws \<noteq> [] \<and> (\<forall>x\<in>set ws. isspace x) \<and> \<not> isspace c) \<and>
          parse_identity raw = Inr [])"
proof -
  from assms have n: "first_name_line (splitlines raw) = None"
    by (simp add: first_name_line_None)
  show ?thesis
  proof (cases "re_search RE_SET_NAME raw")
    case None
    then have "\<not> (\<exists>pre ws c rest. raw = pre @ py ''set'' @ ws @ py ''name='' @ c # rest \<and>
            ws \<noteq> [] \<and> (\<forall>x\<in>set ws. isspace x) \<and> \<not> isspace c)"
      using set_name_complete by blast
    moreover from n None have "parse_identity raw = Inr []" by (simp add: parse_identity_def)
    ultimately show ?thesis by blast
  next
    case (Some m)
    from set_name_sound[OF Some] obtain pre ws tok rest where
      m: "m = Closed tok" and r: "raw = pre @ py ''set'' @ ws @ py ''name='' @ tok @ rest"
      and w: "ws \<noteq> []" "\<forall>c\<in>set ws. isspace c"
      and t: "tok \<noteq> []" "\<forall>c\<in>set tok. \<not> isspace c"
      and e: "rest = [] \<or> isspace (hd rest)" by blast
    from n Some m have "parse_identity raw = Inr (strip_chars [QUOTE] tok)"
      by (simp add: parse_identity_def strip_word[OF t])
    with r w t e show ?thesis by blast
  qed
qed

lemma parse_identity_absent:
  assumes "\<not> contains (py ''name:'') raw" "\<not> contains (py ''name='') raw"
  shows "parse_identity raw = Inr []"
proof -
  from assms(1) have n: "\<forall>l\<in>set (splitlines raw). \<not> contains (py ''name:'') l"
    using line_contains by blast
  have "re_search RE_SET_NAME raw = None"
  proof (cases "re_search RE_SET_NAME raw")
    case (Some m)
    from set_name_sound[OF Some] obtain pre ws tok rest where
      "raw = pre @ py ''set'' @ ws @ py ''name='' @ tok @ rest" by blast
    then have "raw = (pre @ py ''set'' @ ws) @ py ''name='' @ (tok @ rest)" by simp
    then have "contains (py ''name='') raw" unfolding contains_iff by blast
    with assms(2) show ?thesis by simp
  qed simp
  moreover from n have "first_name_line (splitlines raw) = None"
    by (simp add: first_name_line_None)
  ultimately show ?thesis by (simp add: parse_identity_def)
qed

lemma finite_found: "finite (found marker re l)"
  by (simp add: found_def split: option.splits)

lemma found_keyed:
  assumes "x \<in> found marker (lit k @ value_tail) l"
  shows "\<exists>g. x = Some g \<and> g \<noteq> [] \<and> (\<forall>c\<in>set g. value_char c)"
proof -
  from assms obtain m where m: "re_search (lit k @ value_tail) l = Some m" and x: "x = group1 m"
    by (auto simp: found_def split: if_splits option.splits)
  from keyed_sound[OF m] obtain g where "m = Closed g" "g \<noteq> []" "\<forall>c\<in>set g. value_char c"
    by blast
  with x show ?thesis by simp
qed

lemma found_absent: "\<not> contains (py marker) l \<Longrightarrow> found marker re l = {}"
  by (simp add: found_def)

lemma scan_lines_eq:
  "scan_lines ls (S, R) =
     (S \<union> (\<Union>l\<in>set ls. found ''ssid='' RE_SSID l),
      R \<union> (\<Union>l\<in>set ls. found ''radio-name='' RE_RADIO_NAME l))"
  by (induction ls arbitrary: S R) auto

lemma sorted_join_list:
  assumes "finite S" "None \<notin> S"
  shows "\<exists>xs. sorted_join S = Inr (join [SEMICOLON] xs) \<and> sorted xs \<and> distinct xs \<and>
           set xs = {g. Some g \<in> S}"
proof -
  have "the ` S = {g. Some g \<in> S}"
  proof (intro set_eqI iffI)
    fix g assume "g \<in> the ` S"
    then obtain x where x: "x \<in> S" "g = the x" by blast
    with assms(2) obtain g' where "x = Some g'" by (cases x) auto
    with x show "g \<in> {g. Some g \<in> S}" by simp
  next
    fix g assume "g \<in> {g. Some g \<in> S}"
    then have "Some g \<in> S" by simp
    then have "the (Some g) \<in> the ` S" by (rule imageI)
    then show "g \<in> the ` S" by simp
  qed
  moreover have "finite (the ` S)" using assms(1) by simp
  ultimately have "set (sorted_list_of_set (the ` S)) = {g. Some g \<in> S}" by simp
  moreover have "sorted (sorted_list_of_set (the ` S))" "distinct (sorted_list_of_set (the ` S))"
    by simp_all
  moreover have "sorted_join S = Inr (join [SEMICOLON] (sorted_list_of_set (the ` S)))"
    using assms(2) by (simp add: sorted_join_def)
  ultimately show ?thesis by blast
qed

lemma found_all_keyed:
  "x \<in> (\<Union>l\<in>set ls. found marker (lit k @ value_tail) l) \<Longrightarrow>
   \<exists>g. x = Some g \<and> g \<noteq> [] \<and> (\<forall>c\<in>set g. value_char c)"
  using found_keyed by blast

lemma parse_wireless_lists:
  "\<exists>xs ys. parse_wireless raw = Inr (join [SEMICOLON] xs, join [SEMICOLON] ys) \<and>
     sorted xs \<and> distinct xs \<and>
     set xs = {g. \<exists>l\<in>set (splitlines raw). Some g \<in> found ''ssid='' RE_SSID l} \<and>
     sorted ys \<and> distinct ys \<and>
     set ys = {g. \<exists>l\<in>set (splitlines raw). Some g \<in> found ''radio-name='' RE_RADIO_NAME l}"
proof -
  define S where "S = (\<Union>l\<in>set (splitlines raw). found ''ssid='' RE_SSID l)"
  define R where "R = (\<Union>l\<in>set (splitlines raw). found ''radio-name='' RE_RADIO_NAME l)"
  have sc: "scan_lines (splitlines raw) ({}, {}) = (S, R)"
    by (simp add: scan_lines_eq S_def R_def)
  have fS: "finite S" and fR: "finite R" by (simp_all add: S_def R_def finite_found)
  have nS: "None \<notin> S"
    using found_all_keyed[where x = None and ls = "splitlines raw" and marker = "''ssid=''"
        and k = "''ssid=''"]
    by (auto simp: S_def RE_SSID_def)
  have nR: "None \<notin> R"
    using found_all_keyed[where x = None and ls = "splitlines raw" and marker = "''radio-name=''"
        and k = "''radio-name=''"]
    by (auto simp: R_def RE_RADIO_NAME_def)
  from sorted_join_list[OF fS nS] obtain xs where
    xs: "sorted_join S = Inr (join [SEMICOLON] xs)" "sorted xs" "distinct xs"
      "set xs = {g. Some g \<in> S}" by blast
  from sorted_join_list[OF fR nR] obtain ys where
    ys: "sorted_join R = Inr (join [SEMICOLON] ys)" "sorted ys" "distinct ys"
      "set ys = {g. Some g \<in> R}" by blast
  have "parse_wireless raw = Inr (join [SEMICOLON] xs, join [SEMICOLON] ys)"
    by (simp add: parse_wireless_def sc xs(1) ys(1))
  moreover have "set xs = {g. \<exists>l\<in>set (splitlines raw). Some g \<in> found ''ssid='' RE_SSID l}"
    using xs(4) by (auto simp: S_def)
  moreover have "set ys =
      {g. \<exists>l\<in>set (splitlines raw). Some g \<in> found ''radio-name='' RE_RADIO_NAME l}"
    using ys(4) by (auto simp: R_def)
  ultimately show ?thesis using xs(2,3) ys(2,3) by blast
qed

lemma parse_wireless_lines:
  "set (splitlines raw) = set (splitlines raw') \<Longrightarrow> parse_wireless raw = parse_wireless raw'"
  by (simp add: parse_wireless_def scan_lines_eq)

lemma parse_wireless_Inr: "\<exists>a b. parse_wireless raw = Inr (a, b)"
  using parse_wireless_lists[of raw] by blast

lemma join_Nil_iff: "\<forall>x\<in>set xs. x \<noteq> [] \<Longrightarrow> join sep xs = [] \<longleftrightarrow> xs = []"
  by (induction sep xs rule: join.induct) auto

lemma parse_wireless_no_ssid:
  assumes "\<not> contains (py ''ssid='') raw"
  shows "\<exists>b. parse_wireless raw = Inr ([], b)"
proof -
  from parse_wireless_lists[of raw] obtain xs ys where
    p: "parse_wireless raw = Inr (join [SEMICOLON] xs, join [SEMICOLON] ys)"
    and xs: "set xs = {g. \<exists>l\<in>set (splitlines raw). Some g \<in> found ''ssid='' RE_SSID l}"
    by blast
  have "\<forall>l\<in>set (splitlines raw). found ''ssid='' RE_SSID l = {}"
    using assms line_contains found_absent by blast
  with xs have "xs = []" by simp
  with p show ?thesis by simp
qed

lemma parse_wireless_no_radio:
  assumes "\<not> contains (py ''radio-name='') raw"
  shows "\<exists>a. parse_wireless raw = Inr (a, [])"
proof -
  from parse_wireless_lists[of raw] obtain xs ys where
    p: "parse_wireless raw = Inr (join [SEMICOLON] xs, join [SEMICOLON] ys)"
    and ys: "set ys =
      {g. \<exists>l\<in>set (splitlines raw). Some g \<in> found ''radio-name='' RE_RADIO_NAME l}"
    by blast
  have "\<forall>l\<in>set (splitlines raw). found ''radio-name='' RE_RADIO_NAME l = {}"
    using assms line_contains found_absent by blast
  with ys have "ys = []" by simp
  with p show ?thesis by simp
qed

section \<open>Facts about the first value of a line\<close>

lemma takeWhile_exact:
  "\<forall>c\<in>set g. P c \<Longrightarrow> b = [] \<or> \<not> P (hd b) \<Longrightarrow> takeWhile P (g @ b) = g"
  by (cases b) (simp_all add: takeWhile_append2)

lemma match_keyed_Closed:
  assumes "match_here (lit k @ value_tail) s Unset = Some r"
  shows "\<exists>g. r = Closed g"
proof -
  from assms have "match_here value_tail (drop (length k) s) Unset = Some r"
    by (simp add: match_lit split: if_splits)
  then show ?thesis by (auto simp: match_value_tail Let_def split: if_splits)
qed

lemma match_keyed_iff:
  "match_here (lit k @ value_tail) s Unset = Some (Closed g) \<longleftrightarrow>
     (\<exists>q b. s = py k @ q @ g @ b \<and> (q = [] \<or> q = [QUOTE]) \<and> g \<noteq> [] \<and>
        (\<forall>c\<in>set g. value_char c) \<and> (b = [] \<or> \<not> value_char (hd b)))"
proof
  assume m: "match_here (lit k @ value_tail) s Unset = Some (Closed g)"
  then have p: "prefix (py k) s"
    and v: "match_here value_tail (drop (length k) s) Unset = Some (Closed g)"
    by (simp_all add: match_lit split: if_splits)
  define u where "u = drop (length k) s"
  from p have s: "s = py k @ u" by (auto simp: prefix_def u_def length_py)
  define q where "q = (if u \<noteq> [] \<and> hd u = QUOTE then [QUOTE] else [])"
  define t where "t = (if u \<noteq> [] \<and> hd u = QUOTE then tl u else u)"
  have u: "u = q @ t" by (cases u) (auto simp: q_def t_def)
  from v have t: "t \<noteq> []" "value_char (hd t)" and g: "g = takeWhile value_char t"
    by (simp_all add: match_value_tail u_def[symmetric] t_def Let_def split: if_splits)
  from t have gn: "g \<noteq> []" by (cases t) (auto simp: g)
  have gv: "\<forall>c\<in>set g. value_char c" by (auto simp: g dest: set_takeWhileD)
  from takeWhile_rest[of t value_char] obtain b where
    b: "t = g @ b" "b = [] \<or> \<not> value_char (hd b)" by (auto simp: g)
  have "s = py k @ q @ g @ b" using s u b by simp
  moreover have "q = [] \<or> q = [QUOTE]" by (simp add: q_def)
  ultimately show "\<exists>q b. s = py k @ q @ g @ b \<and> (q = [] \<or> q = [QUOTE]) \<and> g \<noteq> [] \<and>
        (\<forall>c\<in>set g. value_char c) \<and> (b = [] \<or> \<not> value_char (hd b))"
    using gn gv b(2) by blast
next
  assume "\<exists>q b. s = py k @ q @ g @ b \<and> (q = [] \<or> q = [QUOTE]) \<and> g \<noteq> [] \<and>
        (\<forall>c\<in>set g. value_char c) \<and> (b = [] \<or> \<not> value_char (hd b))"
  then obtain q b where s: "s = py k @ q @ g @ b" and q: "q = [] \<or> q = [QUOTE]"
    and g: "g \<noteq> []" "\<forall>c\<in>set g. value_char c" and b: "b = [] \<or> \<not> value_char (hd b)" by blast
  from g have hg: "value_char (hd g)" "hd g \<noteq> QUOTE" by (auto simp: value_char_def)
  have tw: "takeWhile value_char (g @ b) = g" using g(2) b by (rule takeWhile_exact)
  have "match_here value_tail (q @ g @ b) Unset = Some (Closed g)"
    using q g(1) hg tw by (cases g) (auto simp: match_value_tail)
  then show "match_here (lit k @ value_tail) s Unset = Some (Closed g)"
    unfolding s by (simp add: match_lit length_py[symmetric] del: length_map)
qed

lemma re_search_leftmost:
  "re_search ps s = Some r \<longleftrightarrow>
     (\<exists>a b. s = a @ b \<and> match_here ps b Unset = Some r \<and>
        (\<forall>a' b'. s = a' @ b' \<and> length a' < length a \<longrightarrow> match_here ps b' Unset = None))"
proof (induction s)
  case Nil
  show ?case by auto
next
  case (Cons x xs)
  show ?case
  proof (cases "match_here ps (x # xs) Unset")
    case (Some r')
    have "(\<exists>a b. x # xs = a @ b \<and> match_here ps b Unset = Some r \<and>
        (\<forall>a' b'. x # xs = a' @ b' \<and> length a' < length a \<longrightarrow> match_here ps b' Unset = None))
      \<longleftrightarrow> r' = r"
    proof
      assume "\<exists>a b. x # xs = a @ b \<and> match_here ps b Unset = Some r \<and>
        (\<forall>a' b'. x # xs = a' @ b' \<and> length a' < length a \<longrightarrow> match_here ps b' Unset = None)"
      then obtain a b where ab: "x # xs = a @ b" "match_here ps b Unset = Some r"
        and lm: "\<forall>a' b'. x # xs = a' @ b' \<and> length a' < length a \<longrightarrow>
          match_here ps b' Unset = None" by blast
      have "a = []"
      proof (rule ccontr)
        assume "a \<noteq> []"
        then have "x # xs = [] @ (x # xs) \<and> length ([] :: pystr) < length a" by simp
        with lm have "match_here ps (x # xs) Unset = None" by blast
        with Some show False by simp
      qed
      with ab Some show "r' = r" by simp
    next
      assume "r' = r"
      with Some have "x # xs = [] @ (x # xs) \<and> match_here ps (x # xs) Unset = Some r \<and>
        (\<forall>a' b'. x # xs = a' @ b' \<and> length a' < length ([] :: pystr) \<longrightarrow>
           match_here ps b' Unset = None)" by simp
      then show "\<exists>a b. x # xs = a @ b \<and> match_here ps b Unset = Some r \<and>
        (\<forall>a' b'. x # xs = a' @ b' \<and> length a' < length a \<longrightarrow> match_here ps b' Unset = None)"
        by blast
    qed
    with Some show ?thesis by simp
  next
    case None
    have "(\<exists>a b. x # xs = a @ b \<and> match_here ps b Unset = Some r \<and>
        (\<forall>a' b'. x # xs = a' @ b' \<and> length a' < length a \<longrightarrow> match_here ps b' Unset = None))
      \<longleftrightarrow> (\<exists>a b. xs = a @ b \<and> match_here ps b Unset = Some r \<and>
        (\<forall>a' b'. xs = a' @ b' \<and> length a' < length a \<longrightarrow> match_here ps b' Unset = None))"
    proof
      assume "\<exists>a b. x # xs = a @ b \<and> match_here ps b Unset = Some r \<and>
        (\<forall>a' b'. x # xs = a' @ b' \<and> length a' < length a \<longrightarrow> match_here ps b' Unset = None)"
      then obtain a b where ab: "x # xs = a @ b" "match_here ps b Unset = Some r"
        and lm: "\<forall>a' b'. x # xs = a' @ b' \<and> length a' < length a \<longrightarrow>
          match_here ps b' Unset = None" by blast
      from ab None obtain a0 where a: "a = x # a0" by (cases a) auto
      with ab have xs: "xs = a0 @ b" by simp
      have "\<forall>a' b'. xs = a' @ b' \<and> length a' < length a0 \<longrightarrow> match_here ps b' Unset = None"
      proof (intro allI impI)
        fix a' b' assume "xs = a' @ b' \<and> length a' < length a0"
        then have "x # xs = (x # a') @ b' \<and> length (x # a') < length a" by (simp add: a)
        with lm show "match_here ps b' Unset = None" by blast
      qed
      with xs ab(2) show "\<exists>a b. xs = a @ b \<and> match_here ps b Unset = Some r \<and>
        (\<forall>a' b'. xs = a' @ b' \<and> length a' < length a \<longrightarrow> match_here ps b' Unset = None)"
        by blast
    next
      assume "\<exists>a b. xs = a @ b \<and> match_here ps b Unset = Some r \<and>
        (\<forall>a' b'. xs = a' @ b' \<and> length a' < length a \<longrightarrow> match_here ps b' Unset = None)"
      then obtain a b where ab: "xs = a @ b" "match_here ps b Unset = Some r"
        and lm: "\<forall>a' b'. xs = a' @ b' \<and> length a' < length a \<longrightarrow>
          match_here ps b' Unset = None" by blast
      have "\<forall>a' b'. x # xs = a' @ b' \<and> length a' < length (x # a) \<longrightarrow>
          match_here ps b' Unset = None"
      proof (intro allI impI)
        fix a' b' assume h: "x # xs = a' @ b' \<and> length a' < length (x # a)"
        show "match_here ps b' Unset = None"
        proof (cases a')
          case Nil
          with h None show ?thesis by simp
        next
          case (Cons y a'')
          with h have "xs = a'' @ b' \<and> length a'' < length a" by simp
          with lm show ?thesis by blast
        qed
      qed
      moreover have "x # xs = (x # a) @ b" using ab(1) by simp
      ultimately show "\<exists>a b. x # xs = a @ b \<and> match_here ps b Unset = Some r \<and>
        (\<forall>a' b'. x # xs = a' @ b' \<and> length a' < length a \<longrightarrow> match_here ps b' Unset = None)"
        using ab(2) by blast
    qed
    with None Cons show ?thesis by simp
  qed
qed


lemma value_at_match:
  "value_at k l a g \<longleftrightarrow>
     (\<exists>b0. l = a @ b0 \<and> match_here (lit k @ value_tail) b0 Unset = Some (Closed g))"
proof
  assume "value_at k l a g"
  then obtain q b where l: "l = a @ py k @ q @ g @ b" and c: "q = [] \<or> q = [QUOTE]" "g \<noteq> []"
    "\<forall>c\<in>set g. value_char c" "b = [] \<or> \<not> value_char (hd b)"
    unfolding value_at_def by blast
  from c have "match_here (lit k @ value_tail) (py k @ q @ g @ b) Unset = Some (Closed g)"
    unfolding match_keyed_iff by blast
  with l show "\<exists>b0. l = a @ b0 \<and> match_here (lit k @ value_tail) b0 Unset = Some (Closed g)"
    by blast
next
  assume "\<exists>b0. l = a @ b0 \<and> match_here (lit k @ value_tail) b0 Unset = Some (Closed g)"
  then obtain b0 where l: "l = a @ b0"
    and m: "match_here (lit k @ value_tail) b0 Unset = Some (Closed g)" by blast
  from m[unfolded match_keyed_iff] obtain q b where "b0 = py k @ q @ g @ b"
    "q = [] \<or> q = [QUOTE]" "g \<noteq> []" "\<forall>c\<in>set g. value_char c" "b = [] \<or> \<not> value_char (hd b)"
    by blast
  with l show "value_at k l a g" unfolding value_at_def by blast
qed

lemma found_first_value:
  "Some g \<in> found k (lit k @ value_tail) l \<longleftrightarrow> first_value k l g"
proof
  assume "Some g \<in> found k (lit k @ value_tail) l"
  then obtain m where m: "re_search (lit k @ value_tail) l = Some m" and gm: "group1 m = Some g"
    by (auto simp: found_def split: if_splits option.splits)
  from m[unfolded re_search_leftmost] obtain a b0 where l: "l = a @ b0"
    and mh: "match_here (lit k @ value_tail) b0 Unset = Some m"
    and lm: "\<forall>a' b'. l = a' @ b' \<and> length a' < length a \<longrightarrow>
       match_here (lit k @ value_tail) b' Unset = None" by blast
  from match_keyed_Closed[OF mh] gm have "m = Closed g" by auto
  with l mh have va: "value_at k l a g" unfolding value_at_match by blast
  have "length a \<le> length a'" if "value_at k l a' g'" for a' g'
  proof (rule ccontr)
    assume "\<not> length a \<le> length a'"
    then have lt: "length a' < length a" by simp
    from that[unfolded value_at_match] obtain b' where "l = a' @ b'"
      "match_here (lit k @ value_tail) b' Unset = Some (Closed g')" by blast
    with lm lt show False by auto
  qed
  with va show "first_value k l g" unfolding first_value_def by blast
next
  assume "first_value k l g"
  then obtain a where va: "value_at k l a g"
    and mn: "\<forall>a' g'. value_at k l a' g' \<longrightarrow> length a \<le> length a'"
    unfolding first_value_def by blast
  from va[unfolded value_at_match] obtain b0 where l: "l = a @ b0"
    and mh: "match_here (lit k @ value_tail) b0 Unset = Some (Closed g)" by blast
  from va have "\<exists>x y. l = x @ py k @ y" unfolding value_at_def by blast
  then have c: "contains (py k) l" by (simp add: contains_iff)
  from mh have "re_search (lit k @ value_tail) (a @ b0) \<noteq> None"
    by (intro re_search_complete) simp
  then obtain m where m: "re_search (lit k @ value_tail) l = Some m" using l by auto
  from m[unfolded re_search_leftmost] obtain a2 b2 where l2: "l = a2 @ b2"
    and mh2: "match_here (lit k @ value_tail) b2 Unset = Some m"
    and lm: "\<forall>a' b'. l = a' @ b' \<and> length a' < length a2 \<longrightarrow>
       match_here (lit k @ value_tail) b' Unset = None" by blast
  from match_keyed_Closed[OF mh2] obtain g2 where g2: "m = Closed g2" by blast
  with l2 mh2 have "value_at k l a2 g2" unfolding value_at_match by blast
  with mn have le: "length a \<le> length a2" by blast
  have "\<not> length a < length a2" using lm l mh by auto
  with le have "length a = length a2" by simp
  with l l2 have "b0 = b2" by (metis append_eq_append_conv)
  with mh mh2 have "m = Closed g" by simp
  with c m show "Some g \<in> found k (lit k @ value_tail) l" by (simp add: found_def)
qed

section \<open>The output parser: the claims\<close>

lemmas string_eval = py_def QUOTE_def NEWLINE_def SEMICOLON_def isspace_def islinebreak_def
  splitlines_def strip_def strip_chars_def split1_def index_def lit_def

text \<open>
  C6. \<open>parse_identity\<close> on the three texts of the specification; the first line that contains
  \<open>name:\<close> decides, and the result is what follows the first \<open>name:\<close> of that line, without
  the whitespace around it; when no line contains \<open>name:\<close>, the result is the value of an
  assignment \<open>set name=value\<close> of the text without the double quotes around it, and the empty
  string when the text has no such assignment; a text with neither \<open>name:\<close> nor \<open>name=\<close>
  gives the empty string.
\<close>

theorem parse_identity_rules:
  "parse_identity (py ''name: Router7'' @ [NEWLINE]) = Inr (py ''Router7'') \<and>
   parse_identity (py ''set name='' @ [QUOTE] @ py ''Gateway-1'' @ [QUOTE]) = Inr (py ''Gateway-1'') \<and>
   parse_identity [] = Inr [] \<and>
   (splitlines raw = before @ line # after \<and> (\<forall>l\<in>set before. \<not> contains (py ''name:'') l) \<and>
    line = a @ py ''name:'' @ b \<and> (\<forall>k<length a. \<not> prefix (py ''name:'') (drop k line))
      \<longrightarrow> parse_identity raw = Inr (strip b)) \<and>
   ((\<forall>l\<in>set (splitlines raw). \<not> contains (py ''name:'') l) \<longrightarrow>
      (\<exists>pre ws tok rest. raw = pre @ py ''set'' @ ws @ py ''name='' @ tok @ rest \<and>
            ws \<noteq> [] \<and> (\<forall>c\<in>set ws. isspace c) \<and> tok \<noteq> [] \<and> (\<forall>c\<in>set tok. \<not> isspace c) \<and>
            (rest = [] \<or> isspace (hd rest)) \<and>
            parse_identity raw = Inr (strip_chars [QUOTE] tok))
       \<or> (\<not> (\<exists>pre ws c rest. raw = pre @ py ''set'' @ ws @ py ''name='' @ c # rest \<and>
            ws \<noteq> [] \<and> (\<forall>x\<in>set ws. isspace x) \<and> \<not> isspace c) \<and>
          parse_identity raw = Inr [])) \<and>
   (\<not> contains (py ''name:'') raw \<and> \<not> contains (py ''name='') raw \<longrightarrow> parse_identity raw = Inr [])"
proof -
  have 1: "parse_identity (py ''name: Router7'' @ [NEWLINE]) = Inr (py ''Router7'')"
    by (simp add: parse_identity_def string_eval)
  have 2: "parse_identity (py ''set name='' @ [QUOTE] @ py ''Gateway-1'' @ [QUOTE])
      = Inr (py ''Gateway-1'')"
    by (simp add: parse_identity_def string_eval RE_SET_NAME_def)
  have 3: "parse_identity [] = Inr []"
    by (simp add: parse_identity_def string_eval RE_SET_NAME_def)
  have 4: "parse_identity raw = Inr (strip b)"
    if "splitlines raw = before @ line # after" "\<forall>l\<in>set before. \<not> contains (py ''name:'') l"
      "line = a @ py ''name:'' @ b" "\<forall>k<length a. \<not> prefix (py ''name:'') (drop k line)"
  proof -
    have "first_name_line (splitlines raw) = Some (Inr (strip b))"
      unfolding that(1) first_name_line_skip[OF that(2)]
      using that(3,4) by (rule name_line_value)
    then show ?thesis by (simp add: parse_identity_def)
  qed
  show ?thesis
    using 1 2 3 4 parse_identity_fallback[of raw] parse_identity_absent[of raw] by blast
qed

theorem parse_identity_rules_witness:
  "parse_identity (py ''junk'' @ [NEWLINE] @ py ''  name: My Router '' @ [13, NEWLINE] @ py ''name: x'')
     = Inr (py ''My Router'') \<and>
   list_all (\<lambda>l. \<not> contains (py ''name:'') l)
     (splitlines (py ''/system identity'' @ [NEWLINE] @ py ''set  name=gw-7 x'')) \<and>
   parse_identity (py ''/system identity'' @ [NEWLINE] @ py ''set  name=gw-7 x'') = Inr (py ''gw-7'') \<and>
   parse_identity (py ''name=gw-7'') = Inr [] \<and>
   parse_identity (py ''no marker here'') = Inr []"
proof -
  let ?r1 = "py ''junk'' @ [NEWLINE] @ py ''  name: My Router '' @ [13, NEWLINE] @ py ''name: x''"
  let ?r2 = "py ''/system identity'' @ [NEWLINE] @ py ''set  name=gw-7 x''"
  have "parse_identity ?r1 = Inr (strip (py '' My Router ''))"
    using parse_identity_rules[of ?r1 "[py ''junk'']" "py ''  name: My Router ''" "[py ''name: x'']"
        "py ''  ''" "py '' My Router ''"]
    by (simp add: string_eval less_Suc_eq)
  moreover have "list_all (\<lambda>l. \<not> contains (py ''name:'') l) (splitlines ?r2)"
    by (simp add: string_eval)
  moreover have "parse_identity ?r2 = Inr (py ''gw-7'')"
    by (simp add: parse_identity_def string_eval RE_SET_NAME_def)
  moreover have "parse_identity (py ''name=gw-7'') = Inr []"
    by (simp add: parse_identity_def string_eval RE_SET_NAME_def)
  moreover have "parse_identity (py ''no marker here'') = Inr []"
    using parse_identity_rules[of "py ''no marker here''"]
    by (simp add: string_eval)
  ultimately show ?thesis by (simp add: string_eval)
qed


text \<open>
  C9. Neither parser raises, whatever the text: \<open>parse_identity\<close> returns a string and
  \<open>parse_wireless\<close> a pair of strings. A text with neither \<open>name:\<close> nor \<open>name=\<close> gives the
  empty identity; a text with neither \<open>ssid=\<close> nor \<open>radio-name=\<close> gives the pair of empty
  strings.
\<close>

theorem parsers_never_raise:
  "(\<exists>t. parse_identity raw = Inr t) \<and> (\<exists>a b. parse_wireless raw = Inr (a, b)) \<and>
   (\<not> contains (py ''name:'') raw \<and> \<not> contains (py ''name='') raw \<longrightarrow> parse_identity raw = Inr []) \<and>
   (\<not> contains (py ''ssid='') raw \<and> \<not> contains (py ''radio-name='') raw
      \<longrightarrow> parse_wireless raw = Inr ([], []))"
proof -
  have "parse_wireless raw = Inr ([], [])"
    if "\<not> contains (py ''ssid='') raw" "\<not> contains (py ''radio-name='') raw"
    using parse_wireless_no_ssid[OF that(1)] parse_wireless_no_radio[OF that(2)] by auto
  then show ?thesis
    using parse_identity_Inr[of raw] parse_wireless_Inr[of raw] parse_identity_absent[of raw]
    by blast
qed

theorem parsers_never_raise_witness:
  "\<not> contains (py ''name:'') (py ''ssid name radio-name'' @ [QUOTE, 0, 13]) \<and>
   \<not> contains (py ''name='') (py ''ssid name radio-name'' @ [QUOTE, 0, 13]) \<and>
   \<not> contains (py ''ssid='') (py ''ssid name radio-name'' @ [QUOTE, 0, 13]) \<and>
   \<not> contains (py ''radio-name='') (py ''ssid name radio-name'' @ [QUOTE, 0, 13]) \<and>
   parse_identity (py ''ssid name radio-name'' @ [QUOTE, 0, 13]) = Inr [] \<and>
   parse_wireless (py ''ssid name radio-name'' @ [QUOTE, 0, 13]) = Inr ([], [])"
  using parsers_never_raise[of "py ''ssid name radio-name'' @ [QUOTE, 0, 13]"]
  by (simp add: string_eval)

text \<open>
  C5, as the code has it. \<open>parse_wireless\<close> returns two strings, each the \<open>;\<close>-join of a
  sorted list without duplicates: the first values of \<open>ssid=\<close> on the lines of the text, and
  the first values of \<open>radio-name=\<close> on them. A line gives at most one value for each key,
  the one at the leftmost place where the key is followed, after at most one double quote,
  by a character that is neither whitespace nor a double quote; the value is the run of such
  characters from there. Two texts with the same set of lines give the same result, whatever
  the order of the lines and however often each occurs.
\<close>

theorem parse_wireless_sorted_sets:
  "(\<exists>xs ys. parse_wireless raw = Inr (join [SEMICOLON] xs, join [SEMICOLON] ys) \<and>
      sorted xs \<and> distinct xs \<and>
      set xs = {g. \<exists>l\<in>set (splitlines raw). first_value ''ssid='' l g} \<and>
      sorted ys \<and> distinct ys \<and>
      set ys = {g. \<exists>l\<in>set (splitlines raw). first_value ''radio-name='' l g} \<and>
      (\<forall>g\<in>set xs \<union> set ys. g \<noteq> [] \<and> (\<forall>c\<in>set g. value_char c))) \<and>
   (set (splitlines raw) = set (splitlines raw') \<longrightarrow> parse_wireless raw = parse_wireless raw')"
proof -
  from parse_wireless_lists[of raw] obtain xs ys where
    p: "parse_wireless raw = Inr (join [SEMICOLON] xs, join [SEMICOLON] ys)"
      "sorted xs" "distinct xs"
      "set xs = {g. \<exists>l\<in>set (splitlines raw). Some g \<in> found ''ssid='' RE_SSID l}"
      "sorted ys" "distinct ys"
      "set ys = {g. \<exists>l\<in>set (splitlines raw). Some g \<in> found ''radio-name='' RE_RADIO_NAME l}"
    by blast
  have x: "set xs = {g. \<exists>l\<in>set (splitlines raw). first_value ''ssid='' l g}"
    unfolding p(4) RE_SSID_def found_first_value ..
  have y: "set ys = {g. \<exists>l\<in>set (splitlines raw). first_value ''radio-name='' l g}"
    unfolding p(7) RE_RADIO_NAME_def found_first_value ..
  have "g \<noteq> [] \<and> (\<forall>c\<in>set g. value_char c)" if "g \<in> set xs \<union> set ys" for g
  proof -
    from that x y obtain key l a where "value_at key l a g"
      unfolding first_value_def by blast
    then show ?thesis unfolding value_at_def by blast
  qed
  with p(1,2,3,5,6) x y have
    "\<exists>xs ys. parse_wireless raw = Inr (join [SEMICOLON] xs, join [SEMICOLON] ys) \<and>
      sorted xs \<and> distinct xs \<and>
      set xs = {g. \<exists>l\<in>set (splitlines raw). first_value ''ssid='' l g} \<and>
      sorted ys \<and> distinct ys \<and>
      set ys = {g. \<exists>l\<in>set (splitlines raw). first_value ''radio-name='' l g} \<and>
      (\<forall>g\<in>set xs \<union> set ys. g \<noteq> [] \<and> (\<forall>c\<in>set g. value_char c))"
    by blast
  then show ?thesis using parse_wireless_lines[of raw raw'] by blast
qed

theorem parse_wireless_sorted_sets_witness:
  "set (splitlines (py ''ssid='' @ [QUOTE] @ py ''Net-B'' @ [QUOTE, NEWLINE]
        @ py ''ssid=Net-A'' @ [NEWLINE] @ py ''ssid=Net-B radio-name=r1'' @ [NEWLINE] @ py ''ssid=Net-A''))
   = set (splitlines (py ''ssid=Net-A'' @ [NEWLINE] @ py ''ssid=Net-B radio-name=r1'' @ [13, NEWLINE]
        @ py ''ssid='' @ [QUOTE] @ py ''Net-B'' @ [QUOTE, NEWLINE])) \<and>
   parse_wireless (py ''ssid='' @ [QUOTE] @ py ''Net-B'' @ [QUOTE, NEWLINE]
        @ py ''ssid=Net-A'' @ [NEWLINE] @ py ''ssid=Net-B radio-name=r1'' @ [NEWLINE] @ py ''ssid=Net-A'')
     = Inr (py ''Net-A;Net-B'', py ''r1'') \<and>
   parse_wireless (py ''ssid=Net-A'' @ [NEWLINE] @ py ''ssid=Net-B radio-name=r1'' @ [13, NEWLINE]
        @ py ''ssid='' @ [QUOTE] @ py ''Net-B'' @ [QUOTE, NEWLINE])
     = Inr (py ''Net-A;Net-B'', py ''r1'') \<and>
   parse_wireless (py ''hide-ssid=yes ssid=MyNet'') = Inr (py ''yes'', [])"
proof -
  let ?r1 = "py ''ssid='' @ [QUOTE] @ py ''Net-B'' @ [QUOTE, NEWLINE]
        @ py ''ssid=Net-A'' @ [NEWLINE] @ py ''ssid=Net-B radio-name=r1'' @ [NEWLINE] @ py ''ssid=Net-A''"
  let ?r2 = "py ''ssid=Net-A'' @ [NEWLINE] @ py ''ssid=Net-B radio-name=r1'' @ [13, NEWLINE]
        @ py ''ssid='' @ [QUOTE] @ py ''Net-B'' @ [QUOTE, NEWLINE]"
  have s: "set (splitlines ?r1) = set (splitlines ?r2)"
    by (simp add: string_eval insert_commute)
  have 1: "parse_wireless ?r1 = Inr (py ''Net-A;Net-B'', py ''r1'')"
    by (simp add: parse_wireless_def string_eval found_def RE_SSID_def RE_RADIO_NAME_def
        value_tail_def sorted_join_def insert_Diff_if)
  have 3: "parse_wireless (py ''hide-ssid=yes ssid=MyNet'') = Inr (py ''yes'', [])"
    by (simp add: parse_wireless_def string_eval found_def RE_SSID_def RE_RADIO_NAME_def
        value_tail_def sorted_join_def insert_Diff_if)
  from s have "parse_wireless ?r1 = parse_wireless ?r2"
    using parse_wireless_sorted_sets[of ?r1 ?r2] by blast
  with s 1 3 show ?thesis by (simp only:)
qed

text \<open>
  C5 as stated fails: on one line that holds \<open>ssid="Net-B"\<close>, \<open>ssid="Net-A"\<close> and both
  again, only the first value of the line is found, and the SSID field is \<open>Net-B\<close>.
\<close>

theorem one_line_counterexample:
  "parse_wireless (py ''ssid='' @ [QUOTE] @ py ''Net-B'' @ [QUOTE] @ py '' ssid='' @ [QUOTE]
      @ py ''Net-A'' @ [QUOTE] @ py '' ssid='' @ [QUOTE] @ py ''Net-B'' @ [QUOTE] @ py '' ssid=''
      @ [QUOTE] @ py ''Net-A'' @ [QUOTE])
     = Inr (py ''Net-B'', []) \<and>
   py ''Net-B'' \<noteq> py ''Net-A;Net-B''"
  by (simp add: parse_wireless_def string_eval found_def RE_SSID_def RE_RADIO_NAME_def
      value_tail_def sorted_join_def insert_Diff_if)

section \<open>Facts about the prober\<close>

lemma ssh_run_pair:
  "ssh_run dev tr addr (fst cred) (snd cred) cmd =
     (fst (ssh_run dev tr addr (fst cred) (snd cred) cmd), tr @ [command_call addr cred cmd])"
  by (simp add: ssh_run_def command_call_def)

lemma run_quiet_trace:
  "snd (run_quiet dev tr addr cred cmd) = tr @ [command_call addr cred cmd]"
  by (simp add: run_quiet_def ssh_run_def command_call_def split: sum.splits transport.splits)

lemma run_quiet_pair:
  "run_quiet dev tr addr cred cmd =
     (fst (run_quiet dev tr addr cred cmd), tr @ [command_call addr cred cmd])"
  using run_quiet_trace[of dev tr addr cred cmd] by (simp add: prod_eq_iff)

lemma attempt_Inl:
  "fst (ssh_run dev tr addr (fst cred) (snd cred) COMMAND_IDENTITY) = Inl e \<Longrightarrow>
   attempt dev tr addr cred = (Inl e, tr @ [command_call addr cred COMMAND_IDENTITY])"
  unfolding attempt_def by (subst ssh_run_pair) simp

lemma attempt_empty:
  "fst (ssh_run dev tr addr (fst cred) (snd cred) COMMAND_IDENTITY) = Inr [] \<Longrightarrow>
   attempt dev tr addr cred =
     (Inl (OtherException (py ''Empty response'')), tr @ [command_call addr cred COMMAND_IDENTITY])"
  unfolding attempt_def by (subst ssh_run_pair) simp

lemma attempt_text:
  assumes "fst (ssh_run dev tr addr (fst cred) (snd cred) COMMAND_IDENTITY) = Inr idt" "idt \<noteq> []"
  shows "\<exists>w rest. attempt dev tr addr cred =
           (Inr [''identity'' \<mapsto> idt, ''wireless'' \<mapsto> w],
            tr @ command_call addr cred COMMAND_IDENTITY # rest) \<and>
         (rest = [command_call addr cred COMMAND_WIRELESS] \<and> w \<noteq> [] \<or>
          rest = [command_call addr cred COMMAND_WIRELESS,
                  command_call addr cred COMMAND_WIRELESS_ALT])"
proof -
  define tr1 where "tr1 = tr @ [command_call addr cred COMMAND_IDENTITY]"
  define w1 where "w1 = fst (run_quiet dev tr1 addr cred COMMAND_WIRELESS)"
  define tr2 where "tr2 = tr1 @ [command_call addr cred COMMAND_WIRELESS]"
  define w2 where "w2 = fst (run_quiet dev tr2 addr cred COMMAND_WIRELESS_ALT)"
  have r1: "run_quiet dev tr1 addr cred COMMAND_WIRELESS = (w1, tr2)"
    unfolding w1_def tr2_def by (rule run_quiet_pair)
  have r2: "run_quiet dev tr2 addr cred COMMAND_WIRELESS_ALT =
      (w2, tr2 @ [command_call addr cred COMMAND_WIRELESS_ALT])"
    unfolding w2_def by (rule run_quiet_pair)
  have a: "attempt dev tr addr cred =
      (if w1 = [] then (Inr [''identity'' \<mapsto> idt, ''wireless'' \<mapsto> w2],
                        tr2 @ [command_call addr cred COMMAND_WIRELESS_ALT])
       else (Inr [''identity'' \<mapsto> idt, ''wireless'' \<mapsto> w1], tr2))"
    unfolding attempt_def
    by (subst ssh_run_pair) (simp add: assms tr1_def[symmetric] r1 r2)
  show ?thesis
  proof (cases "w1 = []")
    case True
    with a have "attempt dev tr addr cred =
        (Inr [''identity'' \<mapsto> idt, ''wireless'' \<mapsto> w2],
         tr @ command_call addr cred COMMAND_IDENTITY #
           [command_call addr cred COMMAND_WIRELESS, command_call addr cred COMMAND_WIRELESS_ALT])"
      by (simp add: tr2_def tr1_def)
    then show ?thesis by blast
  next
    case False
    with a have "attempt dev tr addr cred =
        (Inr [''identity'' \<mapsto> idt, ''wireless'' \<mapsto> w1],
         tr @ command_call addr cred COMMAND_IDENTITY # [command_call addr cred COMMAND_WIRELESS])"
      by (simp add: tr2_def tr1_def)
    with False show ?thesis by blast
  qed
qed

lemma reply_cases:
  obtains m where "r = Inl (AuthenticationException m)"
  | m where "r = Inl (OtherException m)"
  | "r = Inr []"
  | idt where "r = Inr idt" "idt \<noteq> []"
proof (cases r)
  case (Inl e)
  then show ?thesis using that(1,2) by (cases e) auto
next
  case (Inr t)
  then show ?thesis using that(3,4) by (cases "t = []") auto
qed

lemma last_recorded_Cons:
  "last_recorded (r # rs) = (case last_recorded rs of Some m \<Rightarrow> Some m | None \<Rightarrow> recorded r)"
  by (cases "recorded r") (simp_all add: last_recorded_def List.map_filter_simps Let_def)

lemma last_recorded_Nil: "last_recorded [] = None"
  by (simp add: last_recorded_def List.map_filter_simps)

lemma final_error_Cons:
  "final_error le (r # rs) =
     final_error (case recorded r of None \<Rightarrow> le | Some m \<Rightarrow> Some m) rs"
  by (cases "recorded r"; cases "last_recorded rs")
    (simp_all add: final_error_def last_recorded_Cons)

lemma try_loop_failed:
  "\<forall>r\<in>set (identity_replies dev addr tr creds). failed r \<Longrightarrow>
   try_loop dev addr creds le tr =
     ((None, Map.empty, final_error le (identity_replies dev addr tr creds)),
      tr @ map (\<lambda>c. command_call addr c COMMAND_IDENTITY) creds)"
proof (induction creds arbitrary: le tr)
  case Nil
  show ?case by (simp add: final_error_def last_recorded_Nil)
next
  case (Cons cred rest)
  define r where "r = fst (ssh_run dev tr addr (fst cred) (snd cred) COMMAND_IDENTITY)"
  define tr1 where "tr1 = tr @ [command_call addr cred COMMAND_IDENTITY]"
  have rs: "identity_replies dev addr tr (cred # rest) = r # identity_replies dev addr tr1 rest"
    by (simp add: r_def tr1_def)
  from Cons.prems[unfolded rs] have f: "failed r"
    and fr: "\<forall>r\<in>set (identity_replies dev addr tr1 rest). failed r"
    by simp_all
  note IH = Cons.IH[OF fr]
  have t: "tr1 @ map (\<lambda>c. command_call addr c COMMAND_IDENTITY) rest =
      tr @ map (\<lambda>c. command_call addr c COMMAND_IDENTITY) (cred # rest)"
    by (simp add: tr1_def)
  have "try_loop dev addr (cred # rest) le tr =
      try_loop dev addr rest (case recorded r of None \<Rightarrow> le | Some m \<Rightarrow> Some m) tr1"
  proof (cases r rule: reply_cases)
    case (1 m)
    then have "attempt dev tr addr cred = (Inl (AuthenticationException m), tr1)"
      unfolding r_def tr1_def by (rule attempt_Inl)
    then show ?thesis by (simp add: 1)
  next
    case (2 m)
    then have "attempt dev tr addr cred = (Inl (OtherException m), tr1)"
      unfolding r_def tr1_def by (rule attempt_Inl)
    then show ?thesis by (simp add: 2)
  next
    case 3
    then have "attempt dev tr addr cred = (Inl (OtherException (py ''Empty response'')), tr1)"
      unfolding r_def tr1_def by (rule attempt_empty)
    then show ?thesis by (simp add: 3)
  next
    case (4 idt)
    with f show ?thesis by simp
  qed
  then show ?case unfolding rs final_error_Cons IH t .
qed

lemma try_loop_None:
  "fst (fst (try_loop dev addr creds le tr)) = None \<Longrightarrow>
   \<forall>r\<in>set (identity_replies dev addr tr creds). failed r"
proof (induction creds arbitrary: le tr)
  case Nil
  show ?case by simp
next
  case (Cons cred rest)
  define r where "r = fst (ssh_run dev tr addr (fst cred) (snd cred) COMMAND_IDENTITY)"
  define tr1 where "tr1 = tr @ [command_call addr cred COMMAND_IDENTITY]"
  have rs: "identity_replies dev addr tr (cred # rest) = r # identity_replies dev addr tr1 rest"
    by (simp add: r_def tr1_def)
  show ?case
  proof (cases r rule: reply_cases)
    case (1 m)
    then have "attempt dev tr addr cred = (Inl (AuthenticationException m), tr1)"
      unfolding r_def tr1_def by (rule attempt_Inl)
    with Cons.prems have "fst (fst (try_loop dev addr rest le tr1)) = None" by simp
    from Cons.IH[OF this] 1 show ?thesis unfolding rs by simp
  next
    case (2 m)
    then have "attempt dev tr addr cred = (Inl (OtherException m), tr1)"
      unfolding r_def tr1_def by (rule attempt_Inl)
    with Cons.prems have "fst (fst (try_loop dev addr rest (Some m) tr1)) = None" by simp
    from Cons.IH[OF this] 2 show ?thesis unfolding rs by simp
  next
    case 3
    then have "attempt dev tr addr cred = (Inl (OtherException (py ''Empty response'')), tr1)"
      unfolding r_def tr1_def by (rule attempt_empty)
    with Cons.prems have
      "fst (fst (try_loop dev addr rest (Some (py ''Empty response'')) tr1)) = None" by simp
    from Cons.IH[OF this] 3 show ?thesis unfolding rs by simp
  next
    case (4 idt)
    from attempt_text[OF 4[unfolded r_def]] obtain w more where
      "attempt dev tr addr cred = (Inr [''identity'' \<mapsto> idt, ''wireless'' \<mapsto> w],
         tr @ command_call addr cred COMMAND_IDENTITY # more)" by blast
    with Cons.prems show ?thesis by simp
  qed
qed

lemmas prober_eval = try_credentials_def try_credentials_with_def CREDENTIALS_def attempt_def
  run_quiet_def ssh_run_def pick_output_def command_call_def get_def

lemma recorded_None_iff:
  "failed r \<Longrightarrow> recorded r = None \<longleftrightarrow> (\<exists>m. r = Inl (AuthenticationException m))"
  by (cases r rule: reply_cases) auto

lemma last_recorded_None_iff: "last_recorded rs = None \<longleftrightarrow> (\<forall>r\<in>set rs. recorded r = None)"
  by (induction rs) (auto simp: last_recorded_Nil last_recorded_Cons split: option.splits)

lemma last_recorded_all_empty:
  "rs \<noteq> [] \<Longrightarrow> \<forall>r\<in>set rs. r = Inr [] \<Longrightarrow> last_recorded rs = Some (py ''Empty response'')"
proof (induction rs)
  case Nil
  then show ?case by simp
next
  case (Cons r rs)
  then have r: "r = Inr []" by simp
  show ?case
  proof (cases "rs = []")
    case True
    then show ?thesis by (simp add: last_recorded_Cons last_recorded_Nil r)
  next
    case False
    with Cons have "last_recorded rs = Some (py ''Empty response'')" by simp
    then show ?thesis by (simp add: last_recorded_Cons)
  qed
qed

lemma identity_replies_Nil_iff: "identity_replies dev addr tr creds = [] \<longleftrightarrow> creds = []"
  by (cases creds) simp_all

section \<open>The credential prober: the claims\<close>

text \<open>
  C1, as the code has it. When every credential is rejected with an authentication error,
  \<open>try_credentials\<close> (the loop over \<open>CREDENTIALS\<close>, here over any list) returns no credential,
  no outputs and the default text \<open>Auth/connection failed\<close>, after one identity call per
  credential: the text of a rejection is never recorded, not even that of the last one.
\<close>

theorem all_rejected_default_error:
  assumes "\<forall>r\<in>set (identity_replies dev addr [] creds). \<exists>m. r = Inl (AuthenticationException m)"
  shows "try_credentials_with creds dev addr =
           ((None, Map.empty, py ''Auth/connection failed''),
            map (\<lambda>c. command_call addr c COMMAND_IDENTITY) creds)"
proof -
  let ?rs = "identity_replies dev addr [] creds"
  from assms have f: "\<forall>r\<in>set ?rs. failed r" by auto
  from assms have "\<forall>r\<in>set ?rs. recorded r = None" by auto
  then have "last_recorded ?rs = None" by (simp only: last_recorded_None_iff)
  then have "final_error None ?rs = py ''Auth/connection failed''"
    by (simp add: final_error_def)
  with try_loop_failed[OF f, of None] show ?thesis
    by (simp add: try_credentials_with_def)
qed

theorem all_rejected_default_error_witness:
  "identity_replies (\<lambda>tr c. Fails (AuthenticationException (py ''Authentication failed.''))) (py ''10.0.0.1'') []
      CREDENTIALS = replicate 4 (Inl (AuthenticationException (py ''Authentication failed.''))) \<and>
   fst (try_credentials (\<lambda>tr c. Fails (AuthenticationException (py ''Authentication failed.''))) (py ''10.0.0.1''))
     = (None, Map.empty, py ''Auth/connection failed'')"
proof -
  let ?dev = "\<lambda>(tr :: call list) (c :: call). Fails (AuthenticationException (py ''Authentication failed.''))"
  have r: "identity_replies ?dev (py ''10.0.0.1'') [] CREDENTIALS
      = replicate 4 (Inl (AuthenticationException (py ''Authentication failed.'')))"
    by (simp add: CREDENTIALS_def ssh_run_def numeral_eq_Suc)
  then have "\<forall>r\<in>set (identity_replies ?dev (py ''10.0.0.1'') [] CREDENTIALS).
      \<exists>m. r = Inl (AuthenticationException m)" by simp
  from all_rejected_default_error[OF this] r show ?thesis
    by (simp add: try_credentials_def)
qed

text \<open>
  C1 as stated fails: every credential is rejected with the text \<open>Authentication failed.\<close>,
  and the error returned is not that text.
\<close>

theorem all_rejected_counterexample:
  "identity_replies (\<lambda>tr c. Fails (AuthenticationException (py ''Authentication failed.''))) (py ''10.0.0.1'') []
      CREDENTIALS = replicate 4 (Inl (AuthenticationException (py ''Authentication failed.''))) \<and>
   fst (fst (try_credentials (\<lambda>tr c. Fails (AuthenticationException (py ''Authentication failed.'')))
      (py ''10.0.0.1''))) = None \<and>
   snd (snd (fst (try_credentials (\<lambda>tr c. Fails (AuthenticationException (py ''Authentication failed.'')))
      (py ''10.0.0.1'')))) \<noteq> py ''Authentication failed.''"
  by (simp add: prober_eval numeral_eq_Suc) (simp add: py_def)

text \<open>
  C2, as the code has it. When the loop ends without a success, \<open>try_credentials\<close> returns no
  credential, no outputs and the message recorded last, after one identity call per
  credential. An exception other than an authentication rejection records its text, and an
  empty identity reply records \<open>Empty response\<close>. The default \<open>Auth/connection failed\<close> is
  returned exactly when nothing was recorded, that is when every attempt was rejected with
  an authentication error (or the list is empty); when every attempt returned the empty
  text, the error is \<open>Empty response\<close>.
\<close>

theorem exhausted_last_error:
  assumes "fst (fst (try_credentials_with creds dev addr)) = None"
  shows "try_credentials_with creds dev addr =
           ((None, Map.empty,
             case last_recorded (identity_replies dev addr [] creds) of
               None \<Rightarrow> py ''Auth/connection failed'' | Some e \<Rightarrow> e),
            map (\<lambda>c. command_call addr c COMMAND_IDENTITY) creds) \<and>
         (last_recorded (identity_replies dev addr [] creds) = None \<longleftrightarrow>
            (\<forall>r\<in>set (identity_replies dev addr [] creds). \<exists>m. r = Inl (AuthenticationException m))) \<and>
         (creds \<noteq> [] \<and> (\<forall>r\<in>set (identity_replies dev addr [] creds). r = Inr []) \<longrightarrow>
            snd (snd (fst (try_credentials_with creds dev addr))) = py ''Empty response'')"
proof -
  let ?rs = "identity_replies dev addr [] creds"
  from assms have f: "\<forall>r\<in>set ?rs. failed r"
    unfolding try_credentials_with_def by (rule try_loop_None)
  have 1: "try_credentials_with creds dev addr =
           ((None, Map.empty,
             case last_recorded ?rs of None \<Rightarrow> py ''Auth/connection failed'' | Some e \<Rightarrow> e),
            map (\<lambda>c. command_call addr c COMMAND_IDENTITY) creds)"
    using try_loop_failed[OF f, of None]
    by (simp add: try_credentials_with_def final_error_def split: option.splits)
  have 2: "last_recorded ?rs = None \<longleftrightarrow> (\<forall>r\<in>set ?rs. \<exists>m. r = Inl (AuthenticationException m))"
    using f recorded_None_iff unfolding last_recorded_None_iff by blast
  have 3: "snd (snd (fst (try_credentials_with creds dev addr))) = py ''Empty response''"
    if "creds \<noteq> []" "\<forall>r\<in>set ?rs. r = Inr []"
  proof -
    from that(1) have "?rs \<noteq> []" by (simp add: identity_replies_Nil_iff)
    from last_recorded_all_empty[OF this that(2)] show ?thesis by (simp add: 1)
  qed
  from 1 2 3 show ?thesis by blast
qed

theorem exhausted_last_error_witness:
  "fst (try_credentials
      (\<lambda>tr c. if length tr = 2 then Fails (OtherException (py ''timed out''))
               else Fails (AuthenticationException (py ''Authentication failed.'')))
      (py ''10.0.0.1'')) = (None, Map.empty, py ''timed out'')"
proof -
  let ?dev = "\<lambda>(tr :: call list) (c :: call).
      if length tr = 2 then Fails (OtherException (py ''timed out''))
      else Fails (AuthenticationException (py ''Authentication failed.''))"
  have n: "fst (fst (try_credentials_with CREDENTIALS ?dev (py ''10.0.0.1''))) = None"
    by (simp add: prober_eval)
  have r: "identity_replies ?dev (py ''10.0.0.1'') [] CREDENTIALS =
      [Inl (AuthenticationException (py ''Authentication failed.'')),
       Inl (AuthenticationException (py ''Authentication failed.'')),
       Inl (OtherException (py ''timed out'')),
       Inl (AuthenticationException (py ''Authentication failed.''))]"
    by (simp add: CREDENTIALS_def ssh_run_def)
  from exhausted_last_error[OF n] show ?thesis
    by (simp add: r try_credentials_def last_recorded_def List.map_filter_simps)
qed

text \<open>
  C2 as stated fails: every attempt returns the empty identity text, no credential
  succeeds, and the error returned is \<open>Empty response\<close>, not the default text (in the
  wording of the claim or in that of the code).
\<close>

theorem all_empty_counterexample:
  "identity_replies (\<lambda>tr c. Completed [] []) (py ''10.0.0.1'') [] CREDENTIALS
     = replicate 4 (Inr []) \<and>
   fst (try_credentials (\<lambda>tr c. Completed [] []) (py ''10.0.0.1''))
     = (None, Map.empty, py ''Empty response'') \<and>
   py ''Empty response'' \<noteq> py ''authentication/connection failed'' \<and>
   py ''Empty response'' \<noteq> py ''Auth/connection failed''"
proof -
  have "identity_replies (\<lambda>tr c. Completed [] []) (py ''10.0.0.1'') [] CREDENTIALS
     = replicate 4 (Inr [])"
    by (simp add: CREDENTIALS_def ssh_run_def pick_output_def strip_def numeral_eq_Suc)
  moreover have "fst (try_credentials (\<lambda>tr c. Completed [] []) (py ''10.0.0.1''))
     = (None, Map.empty, py ''Empty response'')"
    by (simp add: prober_eval strip_def)
  moreover have "py ''Empty response'' \<noteq> py ''authentication/connection failed''"
    "py ''Empty response'' \<noteq> py ''Auth/connection failed''"
    by (simp_all add: py_def)
  ultimately show ?thesis by blast
qed

section \<open>Facts about a successful probe\<close>

lemma try_loop_success:
  "try_loop dev addr creds le tr = ((Some c, outs, e), tr') \<Longrightarrow>
   \<exists>i idt w rest. i < length creds \<and> creds ! i = c \<and> e = [] \<and>
     (\<forall>j<i. failed (identity_replies dev addr tr creds ! j)) \<and>
     identity_replies dev addr tr creds ! i = Inr idt \<and> idt \<noteq> [] \<and>
     outs = [''identity'' \<mapsto> idt, ''wireless'' \<mapsto> w] \<and>
     tr' = tr @ map (\<lambda>k. command_call addr k COMMAND_IDENTITY) (take i creds) @
             command_call addr c COMMAND_IDENTITY # rest \<and>
     (rest = [command_call addr c COMMAND_WIRELESS] \<and> w \<noteq> [] \<or>
      rest = [command_call addr c COMMAND_WIRELESS, command_call addr c COMMAND_WIRELESS_ALT])"
proof (induction creds arbitrary: le tr)
  case Nil
  then show ?case by simp
next
  case (Cons cred more)
  define r where "r = fst (ssh_run dev tr addr (fst cred) (snd cred) COMMAND_IDENTITY)"
  define tr1 where "tr1 = tr @ [command_call addr cred COMMAND_IDENTITY]"
  have rs: "identity_replies dev addr tr (cred # more) = r # identity_replies dev addr tr1 more"
    by (simp add: r_def tr1_def)
  have step: ?case
    if rec: "try_loop dev addr more le' tr1 = ((Some c, outs, e), tr')" and f: "failed r" for le'
  proof -
    from Cons.IH[OF rec] obtain i idt w rest where
      i: "i < length more" "more ! i = c" "e = []"
        "\<forall>j<i. failed (identity_replies dev addr tr1 more ! j)"
        "identity_replies dev addr tr1 more ! i = Inr idt" "idt \<noteq> []"
        "outs = [''identity'' \<mapsto> idt, ''wireless'' \<mapsto> w]"
        "tr' = tr1 @ map (\<lambda>k. command_call addr k COMMAND_IDENTITY) (take i more) @
             command_call addr c COMMAND_IDENTITY # rest"
        "rest = [command_call addr c COMMAND_WIRELESS] \<and> w \<noteq> [] \<or>
         rest = [command_call addr c COMMAND_WIRELESS, command_call addr c COMMAND_WIRELESS_ALT]"
      by blast
    have a: "Suc i < length (cred # more)" "(cred # more) ! Suc i = c" using i(1,2) by simp_all
    have b: "\<forall>j<Suc i. failed (identity_replies dev addr tr (cred # more) ! j)"
      unfolding rs using i(4) f by (auto simp: less_Suc_eq_0_disj)
    have c: "identity_replies dev addr tr (cred # more) ! Suc i = Inr idt"
      unfolding rs using i(5) by simp
    have d: "tr' = tr @ map (\<lambda>k. command_call addr k COMMAND_IDENTITY) (take (Suc i) (cred # more)) @
             command_call addr c COMMAND_IDENTITY # rest"
      using i(8) by (simp add: tr1_def)
    from a b c d i(3,6,7,9) show ?thesis by blast
  qed
  show ?case
  proof (cases r rule: reply_cases)
    case (1 m)
    then have "attempt dev tr addr cred = (Inl (AuthenticationException m), tr1)"
      unfolding r_def tr1_def by (rule attempt_Inl)
    with Cons.prems have "try_loop dev addr more le tr1 = ((Some c, outs, e), tr')" by simp
    then show ?thesis using 1 by (intro step) simp_all
  next
    case (2 m)
    then have "attempt dev tr addr cred = (Inl (OtherException m), tr1)"
      unfolding r_def tr1_def by (rule attempt_Inl)
    with Cons.prems have "try_loop dev addr more (Some m) tr1 = ((Some c, outs, e), tr')" by simp
    then show ?thesis using 2 by (intro step) simp_all
  next
    case 3
    then have "attempt dev tr addr cred = (Inl (OtherException (py ''Empty response'')), tr1)"
      unfolding r_def tr1_def by (rule attempt_empty)
    with Cons.prems have
      "try_loop dev addr more (Some (py ''Empty response'')) tr1 = ((Some c, outs, e), tr')" by simp
    then show ?thesis using 3 by (intro step) simp_all
  next
    case (4 idt)
    from attempt_text[OF 4(1)[unfolded r_def] 4(2)] obtain w rest where
      at: "attempt dev tr addr cred = (Inr [''identity'' \<mapsto> idt, ''wireless'' \<mapsto> w],
         tr @ command_call addr cred COMMAND_IDENTITY # rest)"
      and rest: "rest = [command_call addr cred COMMAND_WIRELESS] \<and> w \<noteq> [] \<or>
          rest = [command_call addr cred COMMAND_WIRELESS,
                  command_call addr cred COMMAND_WIRELESS_ALT]" by blast
    from at Cons.prems have eq: "c = cred" "outs = [''identity'' \<mapsto> idt, ''wireless'' \<mapsto> w]"
      "e = []" "tr' = tr @ command_call addr cred COMMAND_IDENTITY # rest" by auto
    have a: "0 < length (cred # more)" "(cred # more) ! 0 = c" using eq(1) by simp_all
    have b: "\<forall>j<(0::nat). failed (identity_replies dev addr tr (cred # more) ! j)" by simp
    have c: "identity_replies dev addr tr (cred # more) ! 0 = Inr idt" unfolding rs using 4 by simp
    have d: "tr' = tr @ map (\<lambda>k. command_call addr k COMMAND_IDENTITY) (take 0 (cred # more)) @
             command_call addr c COMMAND_IDENTITY # rest"
      using eq by simp
    from a b c d eq(2,3) 4(2) rest[folded eq(1)] show ?thesis by blast
  qed
qed

lemma try_loop_first_success:
  assumes "i < length creds" "\<forall>j<i. failed (identity_replies dev addr tr creds ! j)"
    and "\<not> failed (identity_replies dev addr tr creds ! i)"
  shows "\<exists>idt w rest. try_loop dev addr creds le tr =
           ((Some (creds ! i), [''identity'' \<mapsto> idt, ''wireless'' \<mapsto> w], []),
            tr @ map (\<lambda>k. command_call addr k COMMAND_IDENTITY) (take i creds) @
              command_call addr (creds ! i) COMMAND_IDENTITY # rest) \<and>
         identity_replies dev addr tr creds ! i = Inr idt \<and>
         (rest = [command_call addr (creds ! i) COMMAND_WIRELESS] \<and> w \<noteq> [] \<or>
          rest = [command_call addr (creds ! i) COMMAND_WIRELESS,
                  command_call addr (creds ! i) COMMAND_WIRELESS_ALT])"
proof -
  obtain co outs e tr' where t: "try_loop dev addr creds le tr = ((co, outs, e), tr')"
    by (metis prod.exhaust)
  have len: "length (identity_replies dev addr tr creds) = length creds" for tr
    by (induction creds arbitrary: tr) simp_all
  show ?thesis
  proof (cases co)
    case None
    with t have "fst (fst (try_loop dev addr creds le tr)) = None" by simp
    from try_loop_None[OF this] assms(1,3) len show ?thesis by (metis nth_mem)
  next
    case (Some c)
    from try_loop_success[OF t[unfolded Some]] obtain i' idt w rest where
      i': "i' < length creds" "creds ! i' = c" "e = []"
        "\<forall>j<i'. failed (identity_replies dev addr tr creds ! j)"
        "identity_replies dev addr tr creds ! i' = Inr idt" "idt \<noteq> []"
        "outs = [''identity'' \<mapsto> idt, ''wireless'' \<mapsto> w]"
        "tr' = tr @ map (\<lambda>k. command_call addr k COMMAND_IDENTITY) (take i' creds) @
             command_call addr c COMMAND_IDENTITY # rest"
        "rest = [command_call addr c COMMAND_WIRELESS] \<and> w \<noteq> [] \<or>
         rest = [command_call addr c COMMAND_WIRELESS, command_call addr c COMMAND_WIRELESS_ALT]"
      by blast
    have "i' = i"
    proof (rule ccontr)
      assume "i' \<noteq> i"
      then consider "i' < i" | "i < i'" by linarith
      then show False
      proof cases
        case 1
        with assms(2) i'(5,6) show False by auto
      next
        case 2
        with i'(4) assms(3) show False by auto
      qed
    qed
    with t Some i' show ?thesis by blast
  qed
qed

section \<open>Facts about the orchestrator\<close>

lemma add_marked_lines_eq:
  "add_marked_lines w ls = w @ concat (map (\<lambda>l. NEWLINE # l) (filter has_marker ls))"
  by (induction ls arbitrary: w) (simp_all add: has_marker_def)

lemma splitlines_Nil: "splitlines [] = []"
  by (simp add: splitlines_def)

lemma process_ip_fail:
  "try_credentials_with creds dev addr = ((None, outs, err), tr) \<Longrightarrow>
   process_ip_with creds dev d addr =
     (Inr \<lparr>ip = addr, status = py ''FAIL'', username = [], password = [],
           system_identity = [], ssids = [], radio_names = [], error = err, seconds = d\<rparr>, tr)"
  by (simp add: process_ip_with_def)

lemma process_ip_ok:
  assumes t: "try_credentials_with creds dev addr =
      ((Some c, [''identity'' \<mapsto> idt, ''wireless'' \<mapsto> w], e), tr)"
  shows "\<exists>ident s r. parse_identity idt = Inr ident \<and>
      parse_wireless (if w = []
         then add_marked_lines [] (splitlines (fst (run_quiet dev tr addr c COMMAND_EXPORT)))
         else w) = Inr (s, r) \<and>
      process_ip_with creds dev d addr =
        (Inr \<lparr>ip = addr, status = py ''OK'', username = fst c, password = snd c,
              system_identity = ident, ssids = s, radio_names = r, error = [], seconds = d\<rparr>,
         if w = [] then tr @ [command_call addr c COMMAND_EXPORT] else tr)"
proof -
  define ex where "ex = fst (run_quiet dev tr addr c COMMAND_EXPORT)"
  define wt where "wt = (if w = [] then add_marked_lines [] (splitlines ex) else w)"
  have rq: "run_quiet dev tr addr c COMMAND_EXPORT = (ex, tr @ [command_call addr c COMMAND_EXPORT])"
    unfolding ex_def by (rule run_quiet_pair)
  obtain ident where ident: "parse_identity idt = Inr ident"
    using parse_identity_Inr by blast
  obtain s r where sr: "parse_wireless wt = Inr (s, r)"
    using parse_wireless_Inr by blast
  have ex0: "ex = [] \<Longrightarrow> add_marked_lines [] (splitlines ex) = []"
    by (simp add: splitlines_Nil)
  have "process_ip_with creds dev d addr =
        (Inr \<lparr>ip = addr, status = py ''OK'', username = fst c, password = snd c,
              system_identity = ident, ssids = s, radio_names = r, error = [], seconds = d\<rparr>,
         if w = [] then tr @ [command_call addr c COMMAND_EXPORT] else tr)"
  proof (cases "w = []")
    case True
    with sr have "parse_wireless (add_marked_lines [] (splitlines ex)) = Inr (s, r)"
      by (simp add: wt_def)
    with True ex0 show ?thesis
      by (cases "ex = []")
        (simp_all add: process_ip_with_def fallback_wireless_def t get_def rq ident)
  next
    case False
    with sr have "parse_wireless w = Inr (s, r)" by (simp add: wt_def)
    with False show ?thesis
      by (simp add: process_ip_with_def fallback_wireless_def t get_def ident)
  qed
  with ident sr show ?thesis unfolding wt_def ex_def by blast
qed

lemma try_credentials_cases:
  obtains err tr where "try_credentials_with creds dev addr = ((None, Map.empty, err), tr)"
  | c idt w tr where "try_credentials_with creds dev addr =
      ((Some c, [''identity'' \<mapsto> idt, ''wireless'' \<mapsto> w], []), tr)"
proof -
  obtain co outs e tr where t: "try_credentials_with creds dev addr = ((co, outs, e), tr)"
    by (metis prod.exhaust)
  show ?thesis
  proof (cases co)
    case None
    with t have "fst (fst (try_loop dev addr creds None [])) = None"
      by (simp add: try_credentials_with_def)
    from try_loop_failed[OF try_loop_None[OF this], of None] that(1) show ?thesis
      by (simp add: try_credentials_with_def)
  next
    case (Some c)
    from try_loop_success[OF t[unfolded Some try_credentials_with_def]] obtain idt w where
      "e = []" "outs = [''identity'' \<mapsto> idt, ''wireless'' \<mapsto> w]" by blast
    with t Some that(2) show ?thesis by simp
  qed
qed

lemma process_ip_record:
  "\<exists>rec tr. process_ip_with creds dev d addr = (Inr rec, tr) \<and> ip rec = addr \<and> seconds rec = d \<and>
     (status rec = py ''FAIL'' \<and> username rec = [] \<and> password rec = [] \<and>
        system_identity rec = [] \<and> ssids rec = [] \<and> radio_names rec = [] \<and>
        fst (fst (try_credentials_with creds dev addr)) = None \<and>
        error rec = snd (snd (fst (try_credentials_with creds dev addr)))
      \<or> status rec = py ''OK'' \<and> error rec = [] \<and>
        fst (fst (try_credentials_with creds dev addr)) = Some (username rec, password rec))"
proof (cases creds dev addr rule: try_credentials_cases)
  case (1 err tr)
  from process_ip_fail[OF 1, of d] 1 show ?thesis by simp
next
  case (2 c idt w tr)
  from process_ip_ok[OF 2, of d] obtain ident s r where
    "process_ip_with creds dev d addr =
        (Inr \<lparr>ip = addr, status = py ''OK'', username = fst c, password = snd c,
              system_identity = ident, ssids = s, radio_names = r, error = [], seconds = d\<rparr>,
         if w = [] then tr @ [command_call addr c COMMAND_EXPORT] else tr)" by blast
  with 2 show ?thesis by simp
qed

lemma status_distinct: "py ''OK'' \<noteq> py ''FAIL''"
  by (simp add: py_def)







section \<open>The orchestrator and the collection of the records: the claims\<close>

text \<open>
  C10. \<open>process_ip\<close> returns a record, never an exception. Its status is \<open>OK\<close> or \<open>FAIL\<close>.
  With \<open>FAIL\<close> the user name, the password, the identity, the SSIDs and the radio names are
  empty. With \<open>OK\<close> the error is empty and the user name and password are the credential
  \<open>try_credentials\<close> returned.
\<close>

theorem process_ip_record_fields:
  "\<exists>rec tr. process_ip dev d addr = (Inr rec, tr) \<and>
     (status rec = py ''OK'' \<or> status rec = py ''FAIL'') \<and>
     (status rec = py ''FAIL'' \<longrightarrow>
        username rec = [] \<and> password rec = [] \<and> system_identity rec = [] \<and>
        ssids rec = [] \<and> radio_names rec = []) \<and>
     (status rec = py ''OK'' \<longrightarrow>
        error rec = [] \<and> fst (fst (try_credentials dev addr)) = Some (username rec, password rec))"
proof -
  from process_ip_record[of CREDENTIALS dev d addr] obtain rec tr where
    p: "process_ip dev d addr = (Inr rec, tr)"
    and c: "status rec = py ''FAIL'' \<and> username rec = [] \<and> password rec = [] \<and>
        system_identity rec = [] \<and> ssids rec = [] \<and> radio_names rec = []
      \<or> status rec = py ''OK'' \<and> error rec = [] \<and>
        fst (fst (try_credentials dev addr)) = Some (username rec, password rec)"
    by (auto simp: process_ip_def try_credentials_def)
  from c status_distinct have
    "(status rec = py ''OK'' \<or> status rec = py ''FAIL'') \<and>
     (status rec = py ''FAIL'' \<longrightarrow>
        username rec = [] \<and> password rec = [] \<and> system_identity rec = [] \<and>
        ssids rec = [] \<and> radio_names rec = []) \<and>
     (status rec = py ''OK'' \<longrightarrow>
        error rec = [] \<and> fst (fst (try_credentials dev addr)) = Some (username rec, password rec))"
    by auto
  with p show ?thesis by blast
qed



lemmas command_eval = COMMAND_IDENTITY_def COMMAND_WIRELESS_def COMMAND_WIRELESS_ALT_def
  COMMAND_EXPORT_def

lemmas process_eval = process_ip_def process_ip_with_def fallback_wireless_def prober_eval command_eval string_eval
  parse_identity_def parse_wireless_def found_def RE_SSID_def RE_RADIO_NAME_def RE_SET_NAME_def
  value_tail_def sorted_join_def insert_Diff_if

theorem process_ip_record_fields_witness:
  "fst (process_ip
      (\<lambda>tr (a, u, p, cmd).
         if p = py ''Admin'' then
           (if cmd = COMMAND_IDENTITY then Completed (py ''  name: gw-7'') []
            else if cmd = COMMAND_WIRELESS
              then Completed (py ''0 ssid='' @ [QUOTE] @ py ''Net-A'' @ [QUOTE] @ py '' radio-name=r1'') []
            else Fails (OtherException (py ''timed out'')))
         else Fails (AuthenticationException (py ''Authentication failed.'')))
      125 (py ''10.0.0.1''))
    = Inr \<lparr>ip = py ''10.0.0.1'', status = py ''OK'', username = py ''admin'',
           password = py ''Admin'', system_identity = py ''gw-7'', ssids = py ''Net-A'',
           radio_names = py ''r1'', error = [], seconds = 125\<rparr> \<and>
   fst (process_ip (\<lambda>tr c. Fails (OtherException (py ''timed out''))) 800 (py ''10.0.0.2''))
    = Inr \<lparr>ip = py ''10.0.0.2'', status = py ''FAIL'', username = [], password = [],
           system_identity = [], ssids = [], radio_names = [], error = py ''timed out'',
           seconds = 800\<rparr>"
proof -
  let ?dev = "\<lambda>(tr :: call list) (a :: pystr, u :: pystr, p :: pystr, cmd :: pystr).
         if p = py ''Admin'' then
           (if cmd = COMMAND_IDENTITY then Completed (py ''  name: gw-7'') []
            else if cmd = COMMAND_WIRELESS
              then Completed (py ''0 ssid='' @ [QUOTE] @ py ''Net-A'' @ [QUOTE] @ py '' radio-name=r1'') []
            else Fails (OtherException (py ''timed out'')))
         else Fails (AuthenticationException (py ''Authentication failed.''))"
  have 1: "fst (process_ip ?dev 125 (py ''10.0.0.1''))
    = Inr \<lparr>ip = py ''10.0.0.1'', status = py ''OK'', username = py ''admin'',
           password = py ''Admin'', system_identity = py ''gw-7'', ssids = py ''Net-A'',
           radio_names = py ''r1'', error = [], seconds = 125\<rparr>"
    by (simp add: process_eval)
  have 2: "fst (process_ip (\<lambda>tr c. Fails (OtherException (py ''timed out''))) 800 (py ''10.0.0.2''))
    = Inr \<lparr>ip = py ''10.0.0.2'', status = py ''FAIL'', username = [], password = [],
           system_identity = [], ssids = [], radio_names = [], error = py ''timed out'',
           seconds = 800\<rparr>"
    by (simp add: process_eval)
  from process_ip_record_fields[of ?dev 125 "py ''10.0.0.1''"]
    process_ip_record_fields[of "\<lambda>tr c. Fails (OtherException (py ''timed out''))" 800 "py ''10.0.0.2''"]
    1 2 show ?thesis by blast
qed

text \<open>
  C3. Let the credential at position \<open>i\<close> be the first whose identity reply is a non-empty
  text. Then \<open>process_ip\<close> (over \<open>CREDENTIALS\<close>, here over any list) returns an \<open>OK\<close> record
  with that credential, and its calls of \<open>ssh_run\<close> are the identity calls of the credentials
  before position \<open>i\<close>, in order, followed by calls that all use the credential at position
  \<open>i\<close>: no call uses a credential of a later position.
\<close>

theorem first_success_fixes_credential:
  assumes "i < length creds"
    and "\<forall>j<i. failed (identity_replies dev addr [] creds ! j)"
    and "\<not> failed (identity_replies dev addr [] creds ! i)"
  shows "\<exists>rec rest. process_ip_with creds dev d addr =
            (Inr rec, map (\<lambda>k. command_call addr k COMMAND_IDENTITY) (take i creds) @ rest) \<and>
          status rec = py ''OK'' \<and> username rec = fst (creds ! i) \<and> password rec = snd (creds ! i) \<and>
          rest \<noteq> [] \<and> (\<forall>k\<in>set rest. \<exists>cmd. k = command_call addr (creds ! i) cmd) \<and>
          (\<forall>k\<in>set (snd (process_ip_with creds dev d addr)).
             \<exists>j\<le>i. \<exists>cmd. k = command_call addr (creds ! j) cmd)"
proof -
  let ?c = "creds ! i"
  let ?pre = "map (\<lambda>k. command_call addr k COMMAND_IDENTITY) (take i creds)"
  from try_loop_first_success[OF assms, of None] obtain idt w more where
    t: "try_credentials_with creds dev addr =
           ((Some ?c, [''identity'' \<mapsto> idt, ''wireless'' \<mapsto> w], []),
            ?pre @ command_call addr ?c COMMAND_IDENTITY # more)"
    and more: "more = [command_call addr ?c COMMAND_WIRELESS] \<and> w \<noteq> [] \<or>
          more = [command_call addr ?c COMMAND_WIRELESS, command_call addr ?c COMMAND_WIRELESS_ALT]"
    by (auto simp: try_credentials_with_def)
  define tr where "tr = ?pre @ command_call addr ?c COMMAND_IDENTITY # more"
  from process_ip_ok[OF t, of d] obtain ident s r where
    p: "process_ip_with creds dev d addr =
        (Inr \<lparr>ip = addr, status = py ''OK'', username = fst ?c, password = snd ?c,
              system_identity = ident, ssids = s, radio_names = r, error = [], seconds = d\<rparr>,
         if w = [] then tr @ [command_call addr ?c COMMAND_EXPORT] else tr)"
    unfolding tr_def by blast
  define rest where "rest = command_call addr ?c COMMAND_IDENTITY # more @
      (if w = [] then [command_call addr ?c COMMAND_EXPORT] else [])"
  have tr': "(if w = [] then tr @ [command_call addr ?c COMMAND_EXPORT] else tr) = ?pre @ rest"
    by (simp add: tr_def rest_def)
  have r1: "rest \<noteq> []" by (simp add: rest_def)
  have r2: "\<forall>k\<in>set rest. \<exists>cmd. k = command_call addr ?c cmd"
    using more by (auto simp: rest_def)
  have r3: "\<forall>k\<in>set (?pre @ rest). \<exists>j\<le>i. \<exists>cmd. k = command_call addr (creds ! j) cmd"
  proof
    fix k assume "k \<in> set (?pre @ rest)"
    then consider "k \<in> set ?pre" | "k \<in> set rest" by auto
    then show "\<exists>j\<le>i. \<exists>cmd. k = command_call addr (creds ! j) cmd"
    proof cases
      case 1
      then obtain x where "x \<in> set (take i creds)" "k = command_call addr x COMMAND_IDENTITY"
        by auto
      then obtain j where "j < i" "j < length creds" "x = creds ! j"
        using assms(1) by (auto simp: in_set_conv_nth)
      with \<open>k = command_call addr x COMMAND_IDENTITY\<close>
      have "j \<le> i \<and> k = command_call addr (creds ! j) COMMAND_IDENTITY" by simp
      then show ?thesis by blast
    next
      case 2
      with r2 show ?thesis by blast
    qed
  qed
  from p tr' have p': "process_ip_with creds dev d addr =
        (Inr \<lparr>ip = addr, status = py ''OK'', username = fst ?c, password = snd ?c,
              system_identity = ident, ssids = s, radio_names = r, error = [], seconds = d\<rparr>,
         ?pre @ rest)" by simp
  have "\<forall>k\<in>set (snd (process_ip_with creds dev d addr)).
             \<exists>j\<le>i. \<exists>cmd. k = command_call addr (creds ! j) cmd"
    unfolding p' using r3 by simp
  moreover have "status \<lparr>ip = addr, status = py ''OK'', username = fst ?c, password = snd ?c,
              system_identity = ident, ssids = s, radio_names = r, error = [], seconds = d\<rparr>
       = py ''OK''" by simp
  ultimately show ?thesis using p' r1 r2
    by (intro exI[of _ "\<lparr>ip = addr, status = py ''OK'', username = fst ?c, password = snd ?c,
              system_identity = ident, ssids = s, radio_names = r, error = [], seconds = d\<rparr>"]
        exI[of _ rest]) simp
qed


theorem first_success_fixes_credential_witness:
  "snd (process_ip_with [(py ''root'', py ''a''), (py ''admin'', py ''b''), (py ''admin'', py ''c'')]
      (\<lambda>tr (a, u, p, cmd).
         if p = py ''b'' then
           (if cmd = COMMAND_IDENTITY then Completed (py ''name: gw'') []
            else Fails (OtherException (py ''timed out'')))
         else Fails (AuthenticationException (py ''Authentication failed.'')))
      10 (py ''10.0.0.1''))
    = [(py ''10.0.0.1'', py ''root'', py ''a'', COMMAND_IDENTITY),
       (py ''10.0.0.1'', py ''admin'', py ''b'', COMMAND_IDENTITY),
       (py ''10.0.0.1'', py ''admin'', py ''b'', COMMAND_WIRELESS),
       (py ''10.0.0.1'', py ''admin'', py ''b'', COMMAND_WIRELESS_ALT),
       (py ''10.0.0.1'', py ''admin'', py ''b'', COMMAND_EXPORT)] \<and>
   list_all (\<lambda>k. fst (snd (snd k)) \<noteq> py ''c'')
     (snd (process_ip_with [(py ''root'', py ''a''), (py ''admin'', py ''b''), (py ''admin'', py ''c'')]
      (\<lambda>tr (a, u, p, cmd).
         if p = py ''b'' then
           (if cmd = COMMAND_IDENTITY then Completed (py ''name: gw'') []
            else Fails (OtherException (py ''timed out'')))
         else Fails (AuthenticationException (py ''Authentication failed.'')))
      10 (py ''10.0.0.1'')))"
proof -
  let ?creds = "[(py ''root'', py ''a''), (py ''admin'', py ''b''), (py ''admin'', py ''c'')]"
  let ?dev = "\<lambda>(tr :: call list) (a :: pystr, u :: pystr, p :: pystr, cmd :: pystr).
         if p = py ''b'' then
           (if cmd = COMMAND_IDENTITY then Completed (py ''name: gw'') []
            else Fails (OtherException (py ''timed out'')))
         else Fails (AuthenticationException (py ''Authentication failed.''))"
  let ?tr = "snd (process_ip_with ?creds ?dev 10 (py ''10.0.0.1''))"
  have r: "identity_replies ?dev (py ''10.0.0.1'') [] ?creds =
      [Inl (AuthenticationException (py ''Authentication failed.'')), Inr (py ''name: gw''),
       Inl (AuthenticationException (py ''Authentication failed.''))]"
    by (simp add: ssh_run_def pick_output_def string_eval)
  have h: "(1::nat) < length ?creds"
    "\<forall>j<(1::nat). failed (identity_replies ?dev (py ''10.0.0.1'') [] ?creds ! j)"
    "\<not> failed (identity_replies ?dev (py ''10.0.0.1'') [] ?creds ! 1)"
    unfolding r by (simp_all add: py_def)
  from first_success_fixes_credential[OF h, of 10] have
    "\<forall>k\<in>set ?tr. \<exists>j\<le>(1::nat). \<exists>cmd. k = command_call (py ''10.0.0.1'') (?creds ! j) cmd"
    by blast
  then have "\<forall>k\<in>set ?tr. fst (snd (snd k)) \<noteq> py ''c''"
    by (auto simp: le_Suc_eq command_call_def py_def)
  then have 2: "list_all (\<lambda>k. fst (snd (snd k)) \<noteq> py ''c'') ?tr"
    by (simp only: list_all_iff)
  have 1: "?tr = [(py ''10.0.0.1'', py ''root'', py ''a'', COMMAND_IDENTITY),
       (py ''10.0.0.1'', py ''admin'', py ''b'', COMMAND_IDENTITY),
       (py ''10.0.0.1'', py ''admin'', py ''b'', COMMAND_WIRELESS),
       (py ''10.0.0.1'', py ''admin'', py ''b'', COMMAND_WIRELESS_ALT),
       (py ''10.0.0.1'', py ''admin'', py ''b'', COMMAND_EXPORT)]"
    by (simp add: process_eval)
  from 1 2 show ?thesis by (rule conjI)
qed

section \<open>Facts about the export fallback\<close>

lemma contains_nonempty: "contains sub l \<Longrightarrow> sub \<noteq> [] \<Longrightarrow> l \<noteq> []"
  by (cases l) simp_all

lemma has_marker_nonempty: "has_marker l \<Longrightarrow> l \<noteq> []"
  unfolding has_marker_def using contains_nonempty by (auto simp: py_def)

lemma splitlines_marked:
  "splitlines (concat (map (\<lambda>l. NEWLINE # l) (filter has_marker (splitlines text)))) =
     (if filter has_marker (splitlines text) = [] then []
      else [] # filter has_marker (splitlines text))"
proof -
  have "\<forall>l\<in>set (filter has_marker (splitlines text)). l \<noteq> [] \<and> (\<forall>c\<in>set l. \<not> islinebreak c)"
  proof
    fix l assume "l \<in> set (filter has_marker (splitlines text))"
    then have "has_marker l" "l \<in> set (lines_from [] text)" by (simp_all add: splitlines_def)
    from has_marker_nonempty[OF this(1)] lines_from_no_break[OF this(2)]
    show "l \<noteq> [] \<and> (\<forall>c\<in>set l. \<not> islinebreak c)" by simp
  qed
  from lines_from_joined[OF this, of "[]"] show ?thesis by (simp add: splitlines_def)
qed

lemma radio_value_found:
  assumes "l \<in> set (splitlines text)" "l = a @ py ''radio-name='' @ q @ v # b"
    and "q = [] \<or> q = [QUOTE]" "value_char v"
    and "parse_wireless (concat (map (\<lambda>l. NEWLINE # l) (filter has_marker (splitlines text))))
      = Inr (s, r)"
  shows "r \<noteq> []"
proof -
  let ?wt = "concat (map (\<lambda>l. NEWLINE # l) (filter has_marker (splitlines text)))"
  have c: "contains (py ''radio-name='') l"
    unfolding contains_iff using assms(2) by (metis append.assoc)
  then have sel: "l \<in> set (filter has_marker (splitlines text))"
    using assms(1) by (simp add: has_marker_def)
  then have "filter has_marker (splitlines text) \<noteq> []" by (metis empty_iff empty_set)
  with sel have l: "l \<in> set (splitlines ?wt)"
    unfolding splitlines_marked by simp
  from keyed_complete[OF assms(2,3,4)] obtain m where
    m: "re_search RE_RADIO_NAME l = Some m" by (auto simp: RE_RADIO_NAME_def)
  from keyed_sound[OF m[unfolded RE_RADIO_NAME_def]] obtain g where g: "m = Closed g" by blast
  have f: "Some g \<in> found ''radio-name='' RE_RADIO_NAME l"
    using c m g by (simp add: found_def)
  from parse_wireless_lists[of ?wt] obtain xs ys where
    p: "parse_wireless ?wt = Inr (join [SEMICOLON] xs, join [SEMICOLON] ys)"
    and ys: "set ys = {g. \<exists>l\<in>set (splitlines ?wt). Some g \<in> found ''radio-name='' RE_RADIO_NAME l}"
    by blast
  from l f ys have "g \<in> set ys" by blast
  then have ne: "ys \<noteq> []" by auto
  have "\<forall>y\<in>set ys. y \<noteq> []"
    using ys found_keyed[where marker = "''radio-name=''" and k = "''radio-name=''"]
    unfolding RE_RADIO_NAME_def by blast
  from join_Nil_iff[OF this, of "[SEMICOLON]"] ne have "join [SEMICOLON] ys \<noteq> []" by simp
  with p assms(5) show ?thesis by simp
qed

lemma parse_wireless_Nil: "parse_wireless [] = Inr ([], [])"
proof -
  have "\<not> contains (py ''ssid='') []" "\<not> contains (py ''radio-name='') []"
    by (simp_all add: py_def)
  from parse_wireless_no_ssid[OF this(1)] parse_wireless_no_radio[OF this(2)]
  show ?thesis by auto
qed

lemma export_not_probe:
  "COMMAND_EXPORT \<noteq> COMMAND_IDENTITY" "COMMAND_EXPORT \<noteq> COMMAND_WIRELESS"
  "COMMAND_EXPORT \<noteq> COMMAND_WIRELESS_ALT"
  by (simp_all add: command_eval py_def)

lemma run_quiet_reply:
  "fst (run_quiet dev tr addr c cmd) =
     (case fst (ssh_run dev tr addr (fst c) (snd c) cmd) of Inl ex \<Rightarrow> [] | Inr text \<Rightarrow> text)"
  by (simp add: run_quiet_def split: prod.splits sum.splits)

lemma fallback_wireless_pair:
  "fallback_wireless dev tr addr c [] =
     (add_marked_lines [] (splitlines (fst (run_quiet dev tr addr c COMMAND_EXPORT))),
      tr @ [command_call addr c COMMAND_EXPORT])"
proof -
  define ex where "ex = fst (run_quiet dev tr addr c COMMAND_EXPORT)"
  have rq: "run_quiet dev tr addr c COMMAND_EXPORT = (ex, tr @ [command_call addr c COMMAND_EXPORT])"
    unfolding ex_def by (rule run_quiet_pair)
  show ?thesis
    unfolding ex_def[symmetric]
    by (cases "ex = []") (simp_all add: fallback_wireless_def rq splitlines_Nil)
qed

lemma fallback_wireless_fst:
  "fst (fallback_wireless dev tr addr c []) =
     add_marked_lines [] (splitlines (fst (run_quiet dev tr addr c COMMAND_EXPORT)))"
  by (simp add: fallback_wireless_pair)

lemma fallback_wireless_empty:
  "fallback_wireless dev tr addr c [] =
     (case fst (ssh_run dev tr addr (fst c) (snd c) COMMAND_EXPORT) of
        Inl ex \<Rightarrow> []
      | Inr body \<Rightarrow> concat (map (\<lambda>l. NEWLINE # l) (filter has_marker (splitlines body))),
      tr @ [command_call addr c COMMAND_EXPORT])"
  unfolding fallback_wireless_pair run_quiet_reply
  by (simp add: add_marked_lines_eq splitlines_Nil split: sum.splits)

section \<open>The export fallback: the claim\<close>

text \<open>
  C7, as the code has it. Let \<open>try_credentials\<close> (over \<open>CREDENTIALS\<close>, here over any list)
  return a credential and an empty wireless text. Then both wireless commands were run, and
  \<open>process_ip\<close> runs the export command with that credential, once, as its last call, and
  returns an \<open>OK\<close> record whatever the export does. The wireless text after the fallback is
  empty if the export raises; if it returns a text, it is made of the lines of that text
  that contain \<open>ssid=\<close> or \<open>radio-name=\<close>, and of no other line, each after a newline. The
  SSIDs and the radio names of the record are what \<open>parse_wireless\<close> finds in that text. If
  a line of the export has \<open>radio-name=\<close> followed, after at most one double quote, by a
  character that is neither whitespace nor a double quote, the radio names of the record
  are not empty.
\<close>

theorem export_fallback:
  assumes "try_credentials_with creds dev addr = ((Some c, outs, e), tr)"
    and "get outs ''wireless'' [] = []"
  shows "\<exists>rec pre. process_ip_with creds dev d addr =
             (Inr rec, tr @ [command_call addr c COMMAND_EXPORT]) \<and>
     tr = pre @ [command_call addr c COMMAND_WIRELESS, command_call addr c COMMAND_WIRELESS_ALT] \<and>
     length (filter (\<lambda>k. snd (snd (snd k)) = COMMAND_EXPORT)
        (tr @ [command_call addr c COMMAND_EXPORT])) = 1 \<and>
     status rec = py ''OK'' \<and>
     fallback_wireless dev tr addr c [] =
       (case fst (ssh_run dev tr addr (fst c) (snd c) COMMAND_EXPORT) of
          Inl ex \<Rightarrow> []
        | Inr text \<Rightarrow> concat (map (\<lambda>l. NEWLINE # l) (filter has_marker (splitlines text))),
        tr @ [command_call addr c COMMAND_EXPORT]) \<and>
     parse_wireless (fst (fallback_wireless dev tr addr c [])) = Inr (ssids rec, radio_names rec) \<and>
     (case fst (ssh_run dev tr addr (fst c) (snd c) COMMAND_EXPORT) of
        Inl ex \<Rightarrow> ssids rec = [] \<and> radio_names rec = []
      | Inr text \<Rightarrow>
          parse_wireless (concat (map (\<lambda>l. NEWLINE # l) (filter has_marker (splitlines text))))
            = Inr (ssids rec, radio_names rec) \<and>
          ((\<exists>l\<in>set (splitlines text). \<exists>a q v b. l = a @ py ''radio-name='' @ q @ v # b \<and>
              (q = [] \<or> q = [QUOTE]) \<and> value_char v) \<longrightarrow> radio_names rec \<noteq> []))"
proof -
  from try_loop_success[OF assms(1)[unfolded try_credentials_with_def]] obtain i idt w rest where
    o: "outs = [''identity'' \<mapsto> idt, ''wireless'' \<mapsto> w]"
    and tr: "tr = [] @ map (\<lambda>k. command_call addr k COMMAND_IDENTITY) (take i creds) @
             command_call addr c COMMAND_IDENTITY # rest"
    and rest: "rest = [command_call addr c COMMAND_WIRELESS] \<and> w \<noteq> [] \<or>
      rest = [command_call addr c COMMAND_WIRELESS, command_call addr c COMMAND_WIRELESS_ALT]"
    by blast
  from o assms(2) have w: "w = []" by (simp add: get_def)
  with rest have rest: "rest = [command_call addr c COMMAND_WIRELESS,
      command_call addr c COMMAND_WIRELESS_ALT]" by simp
  define pre where "pre = map (\<lambda>k. command_call addr k COMMAND_IDENTITY) (take i creds) @
      [command_call addr c COMMAND_IDENTITY]"
  have tr_pre: "tr = pre @ [command_call addr c COMMAND_WIRELESS,
      command_call addr c COMMAND_WIRELESS_ALT]"
    using tr rest by (simp add: pre_def)
  have "filter (\<lambda>k. snd (snd (snd k)) = COMMAND_EXPORT) pre = []"
    using export_not_probe(1) by (auto simp: pre_def command_call_def filter_empty_conv)
  then have once: "length (filter (\<lambda>k. snd (snd (snd k)) = COMMAND_EXPORT)
        (tr @ [command_call addr c COMMAND_EXPORT])) = 1"
    using export_not_probe(2,3) by (simp add: tr_pre command_call_def)
  define reply where "reply = fst (ssh_run dev tr addr (fst c) (snd c) COMMAND_EXPORT)"
  define ex where "ex = fst (run_quiet dev tr addr c COMMAND_EXPORT)"
  have ex: "ex = (case reply of Inl x \<Rightarrow> [] | Inr text \<Rightarrow> text)"
    unfolding ex_def reply_def by (rule run_quiet_reply)
  from process_ip_ok[OF assms(1)[unfolded o], of d] w obtain ident s r where
    pw: "parse_wireless (add_marked_lines [] (splitlines ex)) = Inr (s, r)"
    and p: "process_ip_with creds dev d addr =
        (Inr \<lparr>ip = addr, status = py ''OK'', username = fst c, password = snd c,
              system_identity = ident, ssids = s, radio_names = r, error = [], seconds = d\<rparr>,
         tr @ [command_call addr c COMMAND_EXPORT])"
    unfolding ex_def by auto
  let ?rec = "\<lparr>ip = addr, status = py ''OK'', username = fst c, password = snd c,
              system_identity = ident, ssids = s, radio_names = r, error = [], seconds = d\<rparr>"
  have st: "status ?rec = py ''OK''" by simp
  have fields: "case reply of
        Inl x \<Rightarrow> ssids ?rec = [] \<and> radio_names ?rec = []
      | Inr text \<Rightarrow>
          parse_wireless (concat (map (\<lambda>l. NEWLINE # l) (filter has_marker (splitlines text))))
            = Inr (ssids ?rec, radio_names ?rec) \<and>
          ((\<exists>l\<in>set (splitlines text). \<exists>a q v b. l = a @ py ''radio-name='' @ q @ v # b \<and>
              (q = [] \<or> q = [QUOTE]) \<and> value_char v) \<longrightarrow> radio_names ?rec \<noteq> [])"
  proof (cases reply)
    case (Inl x)
    with ex pw have "parse_wireless [] = Inr (s, r)" by (simp add: splitlines_Nil)
    with Inl show ?thesis by (simp add: parse_wireless_Nil)
  next
    case (Inr body)
    with ex pw have q: "parse_wireless
        (concat (map (\<lambda>l. NEWLINE # l) (filter has_marker (splitlines body)))) = Inr (s, r)"
      by (simp add: add_marked_lines_eq)
    have "r \<noteq> []" if "\<exists>l\<in>set (splitlines body). \<exists>a q v b. l = a @ py ''radio-name='' @ q @ v # b \<and>
              (q = [] \<or> q = [QUOTE]) \<and> value_char v"
    proof -
      from that obtain l a q v b where "l \<in> set (splitlines body)"
        "l = a @ py ''radio-name='' @ q @ v # b" "q = [] \<or> q = [QUOTE]" "value_char v" by blast
      from radio_value_found[OF this q] show ?thesis .
    qed
    with q Inr show ?thesis by simp
  qed
  have pf: "parse_wireless (fst (fallback_wireless dev tr addr c [])) =
      Inr (ssids ?rec, radio_names ?rec)"
    unfolding fallback_wireless_fst using pw by (simp add: ex_def)
  note fw = fallback_wireless_empty[of dev tr addr c]
  from p tr_pre once st fw pf fields[unfolded reply_def]
  have "process_ip_with creds dev d addr = (Inr ?rec, tr @ [command_call addr c COMMAND_EXPORT]) \<and>
     tr = pre @ [command_call addr c COMMAND_WIRELESS, command_call addr c COMMAND_WIRELESS_ALT] \<and>
     length (filter (\<lambda>k. snd (snd (snd k)) = COMMAND_EXPORT)
        (tr @ [command_call addr c COMMAND_EXPORT])) = 1 \<and>
     status ?rec = py ''OK'' \<and>
     fallback_wireless dev tr addr c [] =
       (case fst (ssh_run dev tr addr (fst c) (snd c) COMMAND_EXPORT) of
          Inl ex \<Rightarrow> []
        | Inr text \<Rightarrow> concat (map (\<lambda>l. NEWLINE # l) (filter has_marker (splitlines text))),
        tr @ [command_call addr c COMMAND_EXPORT]) \<and>
     parse_wireless (fst (fallback_wireless dev tr addr c [])) = Inr (ssids ?rec, radio_names ?rec) \<and>
     (case fst (ssh_run dev tr addr (fst c) (snd c) COMMAND_EXPORT) of
        Inl ex \<Rightarrow> ssids ?rec = [] \<and> radio_names ?rec = []
      | Inr text \<Rightarrow>
          parse_wireless (concat (map (\<lambda>l. NEWLINE # l) (filter has_marker (splitlines text))))
            = Inr (ssids ?rec, radio_names ?rec) \<and>
          ((\<exists>l\<in>set (splitlines text). \<exists>a q v b. l = a @ py ''radio-name='' @ q @ v # b \<and>
              (q = [] \<or> q = [QUOTE]) \<and> value_char v) \<longrightarrow> radio_names ?rec \<noteq> []))"
    by (intro conjI) assumption+
  then show ?thesis by blast
qed


theorem export_fallback_witness:
  "process_ip
      (\<lambda>tr (a, u, p, cmd).
         if p = py ''Admin'' then
           (if cmd = COMMAND_IDENTITY then Completed (py ''name: gw'') []
            else if cmd = COMMAND_EXPORT then
              Completed (py ''/interface wireless'' @ [NEWLINE]
                @ py ''set [ find default-name=wlan1 ] radio-name=AP-7 ssid='' @ [QUOTE]
                @ py ''Net-A'' @ [QUOTE, 13, NEWLINE] @ py ''/system identity'' @ [NEWLINE]
                @ py ''set name=gw'') []
            else Completed [] [])
         else Fails (AuthenticationException (py ''Authentication failed.'')))
      10 (py ''10.0.0.1'')
    = (Inr \<lparr>ip = py ''10.0.0.1'', status = py ''OK'', username = py ''admin'',
             password = py ''Admin'', system_identity = py ''gw'', ssids = py ''Net-A'',
             radio_names = py ''AP-7'', error = [], seconds = 10\<rparr>,
       [(py ''10.0.0.1'', py ''admin'', py ''kol5ara'', COMMAND_IDENTITY),
        (py ''10.0.0.1'', py ''admin'', py ''Admin'', COMMAND_IDENTITY),
        (py ''10.0.0.1'', py ''admin'', py ''Admin'', COMMAND_WIRELESS),
        (py ''10.0.0.1'', py ''admin'', py ''Admin'', COMMAND_WIRELESS_ALT),
        (py ''10.0.0.1'', py ''admin'', py ''Admin'', COMMAND_EXPORT)]) \<and>
   fst (fallback_wireless
      (\<lambda>tr (a, u, p, cmd).
         if p = py ''Admin'' then
           (if cmd = COMMAND_IDENTITY then Completed (py ''name: gw'') []
            else if cmd = COMMAND_EXPORT then
              Completed (py ''/interface wireless'' @ [NEWLINE]
                @ py ''set [ find default-name=wlan1 ] radio-name=AP-7 ssid='' @ [QUOTE]
                @ py ''Net-A'' @ [QUOTE, 13, NEWLINE] @ py ''/system identity'' @ [NEWLINE]
                @ py ''set name=gw'') []
            else Completed [] [])
         else Fails (AuthenticationException (py ''Authentication failed.'')))
      [(py ''10.0.0.1'', py ''admin'', py ''kol5ara'', COMMAND_IDENTITY),
       (py ''10.0.0.1'', py ''admin'', py ''Admin'', COMMAND_IDENTITY),
       (py ''10.0.0.1'', py ''admin'', py ''Admin'', COMMAND_WIRELESS),
       (py ''10.0.0.1'', py ''admin'', py ''Admin'', COMMAND_WIRELESS_ALT)]
      (py ''10.0.0.1'') (py ''admin'', py ''Admin'') [])
    = [NEWLINE] @ py ''set [ find default-name=wlan1 ] radio-name=AP-7 ssid='' @ [QUOTE]
        @ py ''Net-A'' @ [QUOTE]"
proof -
  let ?dev = "\<lambda>(tr :: call list) (a :: pystr, u :: pystr, p :: pystr, cmd :: pystr).
         if p = py ''Admin'' then
           (if cmd = COMMAND_IDENTITY then Completed (py ''name: gw'') []
            else if cmd = COMMAND_EXPORT then
              Completed (py ''/interface wireless'' @ [NEWLINE]
                @ py ''set [ find default-name=wlan1 ] radio-name=AP-7 ssid='' @ [QUOTE]
                @ py ''Net-A'' @ [QUOTE, 13, NEWLINE] @ py ''/system identity'' @ [NEWLINE]
                @ py ''set name=gw'') []
            else Completed [] [])
         else Fails (AuthenticationException (py ''Authentication failed.''))"
  let ?tr = "[(py ''10.0.0.1'', py ''admin'', py ''kol5ara'', COMMAND_IDENTITY),
        (py ''10.0.0.1'', py ''admin'', py ''Admin'', COMMAND_IDENTITY),
        (py ''10.0.0.1'', py ''admin'', py ''Admin'', COMMAND_WIRELESS),
        (py ''10.0.0.1'', py ''admin'', py ''Admin'', COMMAND_WIRELESS_ALT)]"
  have t: "try_credentials_with CREDENTIALS ?dev (py ''10.0.0.1'') =
      ((Some (py ''admin'', py ''Admin''),
        [''identity'' \<mapsto> py ''name: gw'', ''wireless'' \<mapsto> []], []), ?tr)"
    by (simp add: prober_eval command_eval string_eval)
  have w: "get [''identity'' \<mapsto> py ''name: gw'', ''wireless'' \<mapsto> []] ''wireless'' [] = []"
    by (simp add: get_def)
  from export_fallback[OF t w, of 10] obtain rec where
    p: "process_ip ?dev 10 (py ''10.0.0.1'') =
      (Inr rec, ?tr @ [command_call (py ''10.0.0.1'') (py ''admin'', py ''Admin'') COMMAND_EXPORT])"
    unfolding process_ip_def by blast
  have "fst (process_ip ?dev 10 (py ''10.0.0.1'')) =
      Inr \<lparr>ip = py ''10.0.0.1'', status = py ''OK'', username = py ''admin'',
             password = py ''Admin'', system_identity = py ''gw'', ssids = py ''Net-A'',
             radio_names = py ''AP-7'', error = [], seconds = 10\<rparr>"
    by (simp add: process_eval)
  with p have 1: "process_ip ?dev 10 (py ''10.0.0.1'') =
      (Inr \<lparr>ip = py ''10.0.0.1'', status = py ''OK'', username = py ''admin'',
             password = py ''Admin'', system_identity = py ''gw'', ssids = py ''Net-A'',
             radio_names = py ''AP-7'', error = [], seconds = 10\<rparr>,
       ?tr @ [(py ''10.0.0.1'', py ''admin'', py ''Admin'', COMMAND_EXPORT)])"
    by (simp add: command_call_def)
  have 2: "fst (fallback_wireless ?dev ?tr (py ''10.0.0.1'') (py ''admin'', py ''Admin'') [])
    = [NEWLINE] @ py ''set [ find default-name=wlan1 ] radio-name=AP-7 ssid='' @ [QUOTE]
        @ py ''Net-A'' @ [QUOTE]"
    by (simp add: process_eval)
  from 1 2 show ?thesis by simp
qed

text \<open>
  C7 as stated fails in its last part: both wireless commands return the empty text, the
  export returns a text with the line \<open>set wlan1 radio-name=" AP 7"\<close>, a radio name with a
  value, and the radio names of the record are empty.
\<close>

theorem quoted_space_counterexample:
  "process_ip
      (\<lambda>tr (a, u, p, cmd).
         if p = py ''Admin'' then
           (if cmd = COMMAND_IDENTITY then Completed (py ''name: gw'') []
            else if cmd = COMMAND_EXPORT then
              Completed (py ''/interface wireless'' @ [NEWLINE]
                @ py ''set wlan1 radio-name='' @ [QUOTE] @ py '' AP 7'' @ [QUOTE]) []
            else Completed [] [])
         else Fails (AuthenticationException (py ''Authentication failed.'')))
      10 (py ''10.0.0.1'')
    = (Inr \<lparr>ip = py ''10.0.0.1'', status = py ''OK'', username = py ''admin'',
             password = py ''Admin'', system_identity = py ''gw'', ssids = [],
             radio_names = [], error = [], seconds = 10\<rparr>,
       [(py ''10.0.0.1'', py ''admin'', py ''kol5ara'', COMMAND_IDENTITY),
        (py ''10.0.0.1'', py ''admin'', py ''Admin'', COMMAND_IDENTITY),
        (py ''10.0.0.1'', py ''admin'', py ''Admin'', COMMAND_WIRELESS),
        (py ''10.0.0.1'', py ''admin'', py ''Admin'', COMMAND_WIRELESS_ALT),
        (py ''10.0.0.1'', py ''admin'', py ''Admin'', COMMAND_EXPORT)])"
  by (simp add: process_eval)

end
